theory Spec2Isabelle
  imports Complex_Main "HOL-Library.Char_ord" "HOL-Library.List_Lexorder" "HOL-Library.Multiset"
begin

section \<open>Python values\<close>

text \<open>
  The program (\<^verbatim>\<open>unir.py\<close>) reads documents with \<^verbatim>\<open>json.load\<close> and inspects them
  with \<^verbatim>\<open>isinstance\<close>, \<^verbatim>\<open>dict.get\<close>, truthiness (\<^verbatim>\<open>or\<close>, \<^verbatim>\<open>if not\<close>) and \<^verbatim>\<open>str\<close>.
  A parsed document is a value of \<open>pyval\<close>: \<^verbatim>\<open>None\<close>, a \<^verbatim>\<open>bool\<close>, an unbounded \<^verbatim>\<open>int\<close>,
  a \<^verbatim>\<open>float\<close>, a \<^verbatim>\<open>str\<close>, a \<^verbatim>\<open>list\<close> or a \<^verbatim>\<open>dict\<close> with text keys (the association
  list of its items; \<^verbatim>\<open>d.get(k)\<close> is \<open>map_of\<close>).

  A float is \<open>PFloat r t\<close>: the exact value \<open>r\<close> of the double (a finite double is a
  rational number) and the text \<open>t\<close> that \<^verbatim>\<open>repr\<close> gives it, which \<^verbatim>\<open>str\<close> and the JSON
  encoder write. Truthiness, \<^verbatim>\<open>==\<close>, \<^verbatim>\<open>hash\<close> and \<^verbatim>\<open><\<close> go by the value (Python compares
  floats with integers exactly); \<^verbatim>\<open>0.0\<close> and \<^verbatim>\<open>-0.0\<close> have the value 0 and differ in the
  text.

  Two limits of the value type. A text is a \<open>string\<close>, so its characters are the
  code points below 256; among these \<^verbatim>\<open>\d\<close> matches exactly \<^verbatim>\<open>0\<close> to \<^verbatim>\<open>9\<close>.
  The floats \<^verbatim>\<open>nan\<close>, \<^verbatim>\<open>inf\<close> and \<^verbatim>\<open>-inf\<close>, which \<^verbatim>\<open>json.load\<close> reads from the literals
  \<^verbatim>\<open>NaN\<close> and \<^verbatim>\<open>Infinity\<close> that JSON itself does not have, are not values of the type.
\<close>

datatype pyval =
    PNone
  | PBool bool
  | PInt int
  | PFloat rat string
  | PStr string
  | PList "pyval list"
  | PDict "(string \<times> pyval) list"

datatype error = TypeError | AttributeError | ReadError

text \<open>Truthiness, as \<^verbatim>\<open>or\<close>, \<^verbatim>\<open>if x\<close> and \<^verbatim>\<open>if not x\<close> test it.\<close>

fun truthy :: "pyval \<Rightarrow> bool" where
  "truthy PNone = False"
| "truthy (PBool b) = b"
| "truthy (PInt i) = (i \<noteq> 0)"
| "truthy (PFloat r t) = (r \<noteq> 0)"
| "truthy (PStr s) = (s \<noteq> [])"
| "truthy (PList xs) = (xs \<noteq> [])"
| "truthy (PDict kvs) = (kvs \<noteq> [])"

text \<open>\<^verbatim>\<open>a or b\<close> on values: \<open>a\<close> when it is truthy, else \<open>b\<close>.\<close>

definition py_or :: "pyval \<Rightarrow> pyval \<Rightarrow> pyval" where
  "py_or a b = (if truthy a then a else b)"

text \<open>
  \<^verbatim>\<open>hash(x)\<close> raises TypeError on a list or a dict. Python compares \<^verbatim>\<open>True == 1\<close>,
  \<^verbatim>\<open>False == 0\<close> and \<^verbatim>\<open>1.0 == 1\<close> (with equal hashes), so a set or a dict key holds one
  of them only; \<open>hkey\<close> maps a hashable value to the representative of its equality
  class: a number to the integer it equals, or else to its value alone.
\<close>

fun hashable :: "pyval \<Rightarrow> bool" where
  "hashable (PList xs) = False"
| "hashable (PDict kvs) = False"
| "hashable v = True"

fun hkey :: "pyval \<Rightarrow> pyval" where
  "hkey (PBool b) = PInt (if b then 1 else 0)"
| "hkey (PFloat r t) = (if of_int \<lfloor>r\<rfloor> = r then PInt \<lfloor>r\<rfloor> else PFloat r [])"
| "hkey v = v"

definition py_eq :: "pyval \<Rightarrow> pyval \<Rightarrow> bool" where
  "py_eq a b = (hkey a = hkey b)"

subsection \<open>Text forms: \<^verbatim>\<open>str\<close> and \<^verbatim>\<open>repr\<close>\<close>

definition join :: "string \<Rightarrow> string list \<Rightarrow> string" where
  "join sep xs = (case xs of [] \<Rightarrow> [] | y # ys \<Rightarrow> y @ concat (map (\<lambda>z. sep @ z) ys))"

fun dec_nat :: "nat \<Rightarrow> string" where
  "dec_nat n = (if n < 10 then [''0123456789'' ! n]
                else dec_nat (n div 10) @ [''0123456789'' ! (n mod 10)])"

declare dec_nat.simps [simp del]

definition str_int :: "int \<Rightarrow> string" where
  "str_int i = (if i < 0 then CHR ''-'' # dec_nat (nat (- i)) else dec_nat (nat i))"

definition hex2 :: "nat \<Rightarrow> string" where
  "hex2 n = [''0123456789abcdef'' ! (n div 16 mod 16), ''0123456789abcdef'' ! (n mod 16)]"

definition code :: "char \<Rightarrow> nat" where
  "code c = of_char c"

text \<open>
  \<^verbatim>\<open>repr\<close> of a text: single quotes unless the text has a single quote and no double
  quote; the quote and the backslash are escaped, tab, newline and carriage return are
  written \<^verbatim>\<open>\t \n \r\<close>, and every other non-printable character below 256 as \<^verbatim>\<open>\xhh\<close>.
\<close>

definition printable :: "char \<Rightarrow> bool" where
  "printable c = (let n = code c in (32 \<le> n \<and> n < 127) \<or> (161 \<le> n \<and> n \<noteq> 173))"

definition repr_char :: "char \<Rightarrow> char \<Rightarrow> string" where
  "repr_char q c =
     (if c = q \<or> c = CHR 0x5C then [CHR 0x5C, c]
      else if c = CHR 0x09 then [CHR 0x5C, CHR ''t'']
      else if c = CHR 0x0A then [CHR 0x5C, CHR ''n'']
      else if c = CHR 0x0D then [CHR 0x5C, CHR ''r'']
      else if printable c then [c]
      else [CHR 0x5C, CHR ''x''] @ hex2 (code c))"

definition repr_str :: "string \<Rightarrow> string" where
  "repr_str s =
     (let q = (if CHR 0x27 \<in> set s \<and> CHR 0x22 \<notin> set s then CHR 0x22 else CHR 0x27)
      in [q] @ concat (map (repr_char q) s) @ [q])"

primrec py_repr :: "pyval \<Rightarrow> string" where
  "py_repr PNone = ''None''"
| "py_repr (PBool b) = (if b then ''True'' else ''False'')"
| "py_repr (PInt i) = str_int i"
| "py_repr (PFloat r t) = t"
| "py_repr (PStr s) = repr_str s"
| "py_repr (PList xs) = ''['' @ join '', '' (map py_repr xs) @ '']''"
| "py_repr (PDict kvs) =
     ''{'' @ join '', '' (map (\<lambda>kv. repr_str (fst kv) @ '': '' @ snd kv)
                              (map (map_prod id py_repr) kvs)) @ ''}''"

definition py_str :: "pyval \<Rightarrow> string" where
  "py_str v = (case v of PStr s \<Rightarrow> s | _ \<Rightarrow> py_repr v)"

section \<open>Utilities\<close>

subsection \<open>The two identifier patterns\<close>

text \<open>
  \<^verbatim>\<open>_QID_RE = re.compile(r"/entity/(Q\d+)$")\<close> and
  \<^verbatim>\<open>_PID_RE = re.compile(r"/prop/direct/(P\d+)$")\<close>, used with \<^verbatim>\<open>search\<close>: the leftmost
  position where the literal, the letter and one or more digits are followed by the end
  of the text. Without \<^verbatim>\<open>re.MULTILINE\<close>, \<^verbatim>\<open>$\<close> matches at the end and also just before
  a newline that ends the text. The result is group 1: the letter and the digits.
\<close>

definition is_digit :: "char \<Rightarrow> bool" where
  "is_digit c = (c \<in> set ''0123456789'')"

definition match_here :: "string \<Rightarrow> char \<Rightarrow> string \<Rightarrow> string option" where
  "match_here lit L s =
     (let n = length lit + 1 in
      if take n s = lit @ [L] then
        (let ds = takeWhile is_digit (drop n s); rest = dropWhile is_digit (drop n s)
         in if ds \<noteq> [] \<and> (rest = [] \<or> rest = [CHR 0x0A]) then Some (L # ds) else None)
      else None)"

fun re_search :: "string \<Rightarrow> char \<Rightarrow> string \<Rightarrow> string option" where
  "re_search lit L [] = match_here lit L []"
| "re_search lit L (c # cs) =
     (case match_here lit L (c # cs) of
        Some g \<Rightarrow> Some g
      | None \<Rightarrow> re_search lit L cs)"

definition QID_RE :: "string \<Rightarrow> string option" where
  "QID_RE s = re_search ''/entity/'' CHR ''Q'' s"

definition PID_RE :: "string \<Rightarrow> string option" where
  "PID_RE s = re_search ''/prop/direct/'' CHR ''P'' s"

subsection \<open>\<^verbatim>\<open>get_value\<close>, \<^verbatim>\<open>extract_qid\<close>, \<^verbatim>\<open>extract_pid\<close>\<close>

text \<open>
  \<^verbatim>\<open>
  def get_value(x):
      if x is None: return ""
      if isinstance(x, dict): return x.get("value", "")
      if isinstance(x, (str, int, float, bool)): return str(x)
      return str(x)
  \<close>
  The dict branch returns the field as it is, so the result is a \<open>pyval\<close>.
\<close>

definition get_value :: "pyval \<Rightarrow> pyval" where
  "get_value x =
     (case x of
        PNone \<Rightarrow> PStr ''''
      | PDict d \<Rightarrow> (case map_of d ''value'' of None \<Rightarrow> PStr '''' | Some v \<Rightarrow> v)
      | _ \<Rightarrow> PStr (py_str x))"

text \<open>
  \<^verbatim>\<open>m = _QID_RE.search(get_value(x)); return m.group(1) if m else None\<close>.
  \<^verbatim>\<open>search\<close> raises TypeError when its argument is not a text.
\<close>

definition extract_qid :: "pyval \<Rightarrow> error + string option" where
  "extract_qid x = (case get_value x of PStr s \<Rightarrow> Inr (QID_RE s) | _ \<Rightarrow> Inl TypeError)"

definition extract_pid :: "pyval \<Rightarrow> error + string option" where
  "extract_pid x = (case get_value x of PStr s \<Rightarrow> Inr (PID_RE s) | _ \<Rightarrow> Inl TypeError)"

subsection \<open>\<^verbatim>\<open>load_json_any\<close>\<close>

text \<open>
  \<^verbatim>\<open>
  if isinstance(raw, dict) and isinstance(raw.get("results", {}).get("bindings"), list):
      return raw["results"]["bindings"]
  if isinstance(raw, list): return raw
  return [raw]
  \<close>
  The argument is the parsed document (opening and parsing the file is the caller's
  \<open>ReadError\<close> case in \<open>file_rows\<close> below). \<^verbatim>\<open>raw.get("results", {})\<close> is the stored
  entry when the key is there, whatever it is; \<^verbatim>\<open>.get\<close> on it raises AttributeError
  unless it is a dict.
\<close>

definition load_json_any :: "pyval \<Rightarrow> error + pyval list" where
  "load_json_any raw =
     (case raw of
        PDict d \<Rightarrow>
          (case (case map_of d ''results'' of None \<Rightarrow> PDict [] | Some v \<Rightarrow> v) of
             PDict res \<Rightarrow>
               (case map_of res ''bindings'' of
                  Some (PList bindings) \<Rightarrow> Inr bindings
                | _ \<Rightarrow> Inr [raw])
           | _ \<Rightarrow> Inl AttributeError)
      | PList rows \<Rightarrow> Inr rows
      | _ \<Rightarrow> Inr [raw])"

subsection \<open>\<^verbatim>\<open>sanitize_scalar\<close>\<close>

text \<open>
  \<^verbatim>\<open>json.dumps(v, ensure_ascii=False, separators=(",", ":"))\<close> on a \<open>pyval\<close>: the
  encoder escapes the double quote, the backslash and the control characters below
  0x20 (\<^verbatim>\<open>\n \r \t \b \f\<close> by name, the others as \<^verbatim>\<open>\u00hh\<close>) and leaves every other
  character as it is; a float is written with \<^verbatim>\<open>float.__repr__\<close>.
\<close>

definition json_char :: "char \<Rightarrow> string" where
  "json_char c =
     (if c = CHR 0x22 then [CHR 0x5C, CHR 0x22]
      else if c = CHR 0x5C then [CHR 0x5C, CHR 0x5C]
      else if c = CHR 0x0A then [CHR 0x5C, CHR ''n'']
      else if c = CHR 0x0D then [CHR 0x5C, CHR ''r'']
      else if c = CHR 0x09 then [CHR 0x5C, CHR ''t'']
      else if c = CHR 0x08 then [CHR 0x5C, CHR ''b'']
      else if c = CHR 0x0C then [CHR 0x5C, CHR ''f'']
      else if code c < 32 then [CHR 0x5C, CHR ''u'', CHR ''0'', CHR ''0''] @ hex2 (code c)
      else [c])"

definition json_str :: "string \<Rightarrow> string" where
  "json_str s = [CHR 0x22] @ concat (map json_char s) @ [CHR 0x22]"

primrec json_text :: "pyval \<Rightarrow> string" where
  "json_text PNone = ''null''"
| "json_text (PBool b) = (if b then ''true'' else ''false'')"
| "json_text (PInt i) = str_int i"
| "json_text (PFloat r t) = t"
| "json_text (PStr s) = json_str s"
| "json_text (PList xs) = ''['' @ join '','' (map json_text xs) @ '']''"
| "json_text (PDict kvs) =
     ''{'' @ join '','' (map (\<lambda>kv. json_str (fst kv) @ '':'' @ snd kv)
                            (map (map_prod id json_text) kvs)) @ ''}''"

definition json_dumps :: "pyval \<Rightarrow> error + string" where
  "json_dumps v = Inr (json_text v)"

text \<open>
  \<^verbatim>\<open>
  def sanitize_scalar(v):
      if v is None: return ""
      if isinstance(v, (str, int, float, bool)): return v
      try: return json.dumps(v, ensure_ascii=False, separators=(",", ":"))
      except Exception: return str(v)
  \<close>
  The encoder is a parameter: the library call fails on objects that are not JSON
  values (a set, say), which \<open>pyval\<close> does not hold; \<open>json_dumps\<close> is the call on the
  values it does hold.
\<close>

definition sanitize_scalar :: "(pyval \<Rightarrow> error + string) \<Rightarrow> pyval \<Rightarrow> pyval" where
  "sanitize_scalar dumps v =
     (case v of
        PNone \<Rightarrow> PStr ''''
      | PStr s \<Rightarrow> v
      | PInt i \<Rightarrow> v
      | PFloat r t \<Rightarrow> v
      | PBool b \<Rightarrow> v
      | _ \<Rightarrow> (case dumps v of Inr s \<Rightarrow> PStr s | Inl e \<Rightarrow> PStr (py_str v)))"

section \<open>The builder\<close>

text \<open>
  \<^verbatim>\<open>
  class KGBuilder:
      def __init__(self):
          self.nodes = {}          # qid -> {labels:set}
          self.edges = []          # list of dict
          self.edge_seen = set()
          self.prop_counts = Counter()
  \<close>
  \<open>nodes\<close> is the dict in insertion order (\<^verbatim>\<open>get\<close> is \<open>map_of\<close>). A node's \<^verbatim>\<open>labels\<close>
  set is the list of its elements in the order they were added; \<open>set_add\<close> keeps out
  what Python's \<^verbatim>\<open>==\<close> already finds in it. \<open>edge_seen\<close> holds the key tuples, their
  last component through \<open>hkey\<close>. \<open>prop_counts\<close> is the Counter read with its default 0.
\<close>

record node =
  node_id :: string
  labels :: "pyval list"

record edge =
  source :: string
  target :: string
  property_id :: "string option"
  property_label :: pyval

type_synonym edge_key = "string \<times> string \<times> string \<times> pyval"

record KGBuilder =
  nodes :: "(string \<times> node) list"
  edges :: "edge list"
  edge_seen :: "edge_key set"
  prop_counts :: "string \<times> pyval \<Rightarrow> nat"

definition init :: KGBuilder where
  "init = \<lparr>nodes = [], edges = [], edge_seen = {}, prop_counts = (\<lambda>k. 0)\<rparr>"

definition set_add :: "pyval list \<Rightarrow> pyval \<Rightarrow> pyval list" where
  "set_add ls v = (if \<exists>x \<in> set ls. py_eq x v then ls else ls @ [v])"

text \<open>\<^verbatim>\<open>n["labels"].add(label)\<close> on the node object that \<^verbatim>\<open>self.nodes.get(qid)\<close> returned.\<close>

fun add_label :: "string \<Rightarrow> pyval \<Rightarrow> (string \<times> node) list \<Rightarrow> (string \<times> node) list" where
  "add_label qid l [] = []"
| "add_label qid l ((k, n) # rest) =
     (if k = qid then (k, n\<lparr>labels := set_add (labels n) l\<rparr>) # rest
      else (k, n) # add_label qid l rest)"

text \<open>
  \<^verbatim>\<open>
  def ensure_node(self, qid, label=""):
      n = self.nodes.get(qid)
      if n is None:
          n = {"id": qid, "labels": set()}
          self.nodes[qid] = n
      if label:
          n["labels"].add(label)
      return n
  \<close>
  The result is the builder after the call and the exception it raised, if any:
  \<^verbatim>\<open>add\<close> raises TypeError on an unhashable label, after the node was stored.
\<close>

definition ensure_node :: "KGBuilder \<Rightarrow> string \<Rightarrow> pyval \<Rightarrow> KGBuilder \<times> error option" where
  "ensure_node b qid lbl =
     (let b1 = (case map_of (nodes b) qid of
                  None \<Rightarrow> b\<lparr>nodes := nodes b @ [(qid, \<lparr>node_id = qid, labels = []\<rparr>)]\<rparr>
                | Some n \<Rightarrow> b)
      in if truthy lbl then
           (if hashable lbl then (b1\<lparr>nodes := add_label qid lbl (nodes b1)\<rparr>, None)
            else (b1, Some TypeError))
         else (b1, None))"

text \<open>
  \<^verbatim>\<open>
  def add_edge(self, src, dst, pid, prop_label):
      key = (src, dst, pid or "", prop_label or "")
      if key in self.edge_seen:
          return
      self.edge_seen.add(key)
      self.edges.append({"source": src, "target": dst,
                         "property_id": pid, "property_label": prop_label})
      self.prop_counts[(pid or "", prop_label or "")] += 1
  \<close>
  \<^verbatim>\<open>key in self.edge_seen\<close> hashes the tuple and raises TypeError when
  \<^verbatim>\<open>prop_label or ""\<close> is unhashable, before anything is stored.
\<close>

definition pid_or_empty :: "string option \<Rightarrow> string" where
  "pid_or_empty pid = (case pid of None \<Rightarrow> '''' | Some p \<Rightarrow> p)"

definition label_or_empty :: "pyval \<Rightarrow> pyval" where
  "label_or_empty prop_label = py_or prop_label (PStr '''')"

definition add_edge ::
  "KGBuilder \<Rightarrow> string \<Rightarrow> string \<Rightarrow> string option \<Rightarrow> pyval \<Rightarrow> KGBuilder \<times> error option" where
  "add_edge b src dst pid prop_label =
     (if \<not> hashable (label_or_empty prop_label) then (b, Some TypeError)
      else
        (let key = (src, dst, pid_or_empty pid, hkey (label_or_empty prop_label)) in
         if key \<in> edge_seen b then (b, None)
         else
           (b\<lparr>edge_seen := insert key (edge_seen b),
              edges := edges b @ [\<lparr>source = src, target = dst,
                                   property_id = pid, property_label = prop_label\<rparr>],
              prop_counts := (prop_counts b)
                ((pid_or_empty pid, hkey (label_or_empty prop_label)) :=
                   prop_counts b (pid_or_empty pid, hkey (label_or_empty prop_label)) + 1)\<rparr>,
            None)))"

subsection \<open>\<^verbatim>\<open>process_row\<close>\<close>

text \<open>
  \<^verbatim>\<open>row.get(k)\<close> is \<open>dget\<close> (None for a missing column). \<open>or_id\<close> is \<^verbatim>\<open>a or b\<close> on the
  results of the two extractors: the right operand is evaluated only when the left one
  returned a falsy value, and an exception of the left one is the exception of the whole.
\<close>

definition dget :: "(string \<times> pyval) list \<Rightarrow> string \<Rightarrow> pyval" where
  "dget r k = (case map_of r k of None \<Rightarrow> PNone | Some v \<Rightarrow> v)"

definition or_id :: "error + string option \<Rightarrow> error + string option \<Rightarrow> error + string option" where
  "or_id a b =
     (case a of
        Inl e \<Rightarrow> Inl e
      | Inr None \<Rightarrow> b
      | Inr (Some s) \<Rightarrow> if s \<noteq> [] then Inr (Some s) else b)"

definition subj_of :: "(string \<times> pyval) list \<Rightarrow> error + string option" where
  "subj_of r = or_id (or_id (extract_qid (dget r ''item'')) (extract_qid (dget r ''item1'')))
                     (extract_qid (dget r ''subject''))"

definition subj_label_of :: "(string \<times> pyval) list \<Rightarrow> pyval" where
  "subj_label_of r = py_or (py_or (get_value (dget r ''itemLabel''))
                                  (get_value (dget r ''item1Label'')))
                           (get_value (dget r ''subjectLabel''))"

definition pid_of :: "(string \<times> pyval) list \<Rightarrow> error + string option" where
  "pid_of r = or_id (extract_pid (dget r ''prop'')) (extract_pid (dget r ''p''))"

definition opt_val :: "string option \<Rightarrow> pyval" where
  "opt_val x = (case x of None \<Rightarrow> PNone | Some s \<Rightarrow> PStr s)"

definition prop_label_of :: "(string \<times> pyval) list \<Rightarrow> string option \<Rightarrow> pyval" where
  "prop_label_of r pid = py_or (py_or (get_value (dget r ''propLabel''))
                                      (get_value (dget r ''pl_'')))
                               (opt_val pid)"

definition obj_of :: "(string \<times> pyval) list \<Rightarrow> error + string option" where
  "obj_of r = or_id (or_id (extract_qid (dget r ''value'')) (extract_qid (dget r ''item2'')))
                    (extract_qid (dget r ''o''))"

definition obj_label_of :: "(string \<times> pyval) list \<Rightarrow> pyval" where
  "obj_label_of r = py_or (py_or (get_value (dget r ''valueLabel''))
                                 (get_value (dget r ''item2Label'')))
                          (get_value (dget r ''ol_''))"

text \<open>
  \<^verbatim>\<open>
  def process_row(self, row):
      subj = extract_qid(row.get("item")) or ... ; subj_label = get_value(...) or ...
      if not subj: return
      self.ensure_node(subj, subj_label)
      pid = extract_pid(row.get("prop")) or extract_pid(row.get("p"))
      prop_label = get_value(row.get("propLabel")) or get_value(row.get("pl_")) or pid
      obj = extract_qid(row.get("value")) or ... ; obj_label = get_value(...) or ...
      if obj:
          self.ensure_node(obj, obj_label)
          self.add_edge(subj, obj, pid, prop_label)
  \<close>
  The statements run in this order, and an exception leaves the builder as the
  statements before it made it. A row that is not a dict has no \<^verbatim>\<open>get\<close>: AttributeError.
\<close>

definition process_row :: "KGBuilder \<Rightarrow> pyval \<Rightarrow> KGBuilder \<times> error option" where
  "process_row b row =
     (case row of
        PDict r \<Rightarrow>
          (case subj_of r of
             Inl e \<Rightarrow> (b, Some e)
           | Inr None \<Rightarrow> (b, None)
           | Inr (Some subj) \<Rightarrow>
               if subj = [] then (b, None)
               else
                 (case ensure_node b subj (subj_label_of r) of
                    (b1, Some e) \<Rightarrow> (b1, Some e)
                  | (b1, None) \<Rightarrow>
                      (case pid_of r of
                         Inl e \<Rightarrow> (b1, Some e)
                       | Inr pid \<Rightarrow>
                           (case obj_of r of
                              Inl e \<Rightarrow> (b1, Some e)
                            | Inr None \<Rightarrow> (b1, None)
                            | Inr (Some obj) \<Rightarrow>
                                if obj = [] then (b1, None)
                                else
                                  (case ensure_node b1 obj (obj_label_of r) of
                                     (b2, Some e) \<Rightarrow> (b2, Some e)
                                   | (b2, None) \<Rightarrow>
                                       add_edge b2 subj obj pid (prop_label_of r pid))))))
      | _ \<Rightarrow> (b, Some AttributeError))"

subsection \<open>\<^verbatim>\<open>build\<close>\<close>

text \<open>
  The two loops of \<^verbatim>\<open>build\<close>. A file is what reading and parsing it gives: an exception
  (\<open>Inl\<close>) or the parsed document. A file whose \<^verbatim>\<open>load_json_any\<close> raises is skipped
  (\<^verbatim>\<open>continue\<close>); a row whose \<^verbatim>\<open>process_row\<close> raises is reported and the loop goes on
  with the builder as the row left it.
\<close>

definition ingest :: "KGBuilder \<Rightarrow> pyval list \<Rightarrow> KGBuilder" where
  "ingest b rows = foldl (\<lambda>b row. fst (process_row b row)) b rows"

definition file_rows :: "error + pyval \<Rightarrow> pyval list" where
  "file_rows f =
     (case f of
        Inl e \<Rightarrow> []
      | Inr raw \<Rightarrow> (case load_json_any raw of Inl e \<Rightarrow> [] | Inr rows \<Rightarrow> rows))"

definition ingest_files :: "KGBuilder \<Rightarrow> (error + pyval) list \<Rightarrow> KGBuilder" where
  "ingest_files b files = foldl (\<lambda>b f. ingest b (file_rows f)) b files"

text \<open>
  \<^verbatim>\<open>sorted\<close> on the elements of a label set (hashable, none equal to another): texts are
  compared by code point, \<^verbatim>\<open>bool\<close>, \<^verbatim>\<open>int\<close> and \<^verbatim>\<open>float\<close> as numbers; comparing a text with a
  number, or \<^verbatim>\<open>None\<close> with anything, raises TypeError. A list of fewer than two
  elements is returned without a comparison.
\<close>

definition the_str :: "pyval \<Rightarrow> string" where
  "the_str v = (case v of PStr s \<Rightarrow> s | _ \<Rightarrow> [])"

definition is_str :: "pyval \<Rightarrow> bool" where
  "is_str v = (case v of PStr s \<Rightarrow> True | _ \<Rightarrow> False)"

definition is_num :: "pyval \<Rightarrow> bool" where
  "is_num v = (case v of PInt i \<Rightarrow> True | PFloat r t \<Rightarrow> True | PBool b \<Rightarrow> True | _ \<Rightarrow> False)"

definition num_val :: "pyval \<Rightarrow> rat" where
  "num_val v =
     (case v of
        PInt i \<Rightarrow> of_int i
      | PFloat r t \<Rightarrow> r
      | PBool b \<Rightarrow> (if b then 1 else 0)
      | _ \<Rightarrow> 0)"

definition py_sorted :: "pyval list \<Rightarrow> error + pyval list" where
  "py_sorted xs =
     (if length xs < 2 then Inr xs
      else if list_all is_str xs then Inr (map PStr (sort (map the_str xs)))
      else if list_all is_num xs then Inr (sort_key num_val xs)
      else Inl TypeError)"

text \<open>
  \<^verbatim>\<open>
  for q, n in self.nodes.items():
      label = sorted(n["labels"])[0] if n["labels"] else ""
      nodes_norm[q] = {"id": q, "label": label, "labels": sorted(list(n["labels"]))}
  self.nodes = nodes_norm
  \<close>
\<close>

record node_norm =
  norm_id :: string
  label :: pyval
  norm_labels :: "pyval list"

definition normalize_node :: "string \<times> node \<Rightarrow> error + string \<times> node_norm" where
  "normalize_node qn =
     (case py_sorted (labels (snd qn)) of
        Inl e \<Rightarrow> Inl e
      | Inr ls \<Rightarrow>
          Inr (fst qn, \<lparr>norm_id = fst qn,
                        label = (case ls of [] \<Rightarrow> PStr '''' | l # _ \<Rightarrow> l),
                        norm_labels = ls\<rparr>))"

fun normalize_nodes :: "(string \<times> node) list \<Rightarrow> error + (string \<times> node_norm) list" where
  "normalize_nodes [] = Inr []"
| "normalize_nodes (qn # rest) =
     (case normalize_node qn of
        Inl e \<Rightarrow> Inl e
      | Inr x \<Rightarrow> (case normalize_nodes rest of Inl e \<Rightarrow> Inl e | Inr xs \<Rightarrow> Inr (x # xs)))"

text \<open>\<^verbatim>\<open>build\<close>: the builder after the loops and its normalised nodes, or the exception.\<close>

definition build :: "(error + pyval) list \<Rightarrow> error + KGBuilder \<times> (string \<times> node_norm) list" where
  "build files =
     (let b = ingest_files init files in
      case normalize_nodes (nodes b) of Inl e \<Rightarrow> Inl e | Inr ns \<Rightarrow> Inr (b, ns))"

section \<open>Sequences of calls, and what a builder holds\<close>

text \<open>
  A call of one of the two upsert methods, and a sequence of such calls on one builder.
  An exception of a call is the caller's to handle; the builder stays as the call left it.
\<close>

datatype call =
    EnsureNode string pyval
  | AddEdge string string "string option" pyval

definition do_call :: "KGBuilder \<Rightarrow> call \<Rightarrow> KGBuilder" where
  "do_call b c =
     (case c of
        EnsureNode qid lbl \<Rightarrow> fst (ensure_node b qid lbl)
      | AddEdge src dst pid prop_label \<Rightarrow> fst (add_edge b src dst pid prop_label))"

definition run_calls :: "KGBuilder \<Rightarrow> call list \<Rightarrow> KGBuilder" where
  "run_calls b cs = foldl do_call b cs"

text \<open>
  The calls that \<open>process_row\<close> makes for a row, read off its text: they depend on the
  row only. A call that raises is the last one.
\<close>

definition raises_on_label :: "pyval \<Rightarrow> bool" where
  "raises_on_label lbl = (truthy lbl \<and> \<not> hashable lbl)"

definition object_calls :: "(string \<times> pyval) list \<Rightarrow> string \<Rightarrow> call list" where
  "object_calls r subj =
     (case pid_of r of
        Inl e \<Rightarrow> []
      | Inr pid \<Rightarrow>
          (case obj_of r of
             Inl e \<Rightarrow> []
           | Inr None \<Rightarrow> []
           | Inr (Some obj) \<Rightarrow>
               if obj = [] then []
               else EnsureNode obj (obj_label_of r) #
                    (if raises_on_label (obj_label_of r) then []
                     else [AddEdge subj obj pid (prop_label_of r pid)])))"

definition row_calls :: "pyval \<Rightarrow> call list" where
  "row_calls row =
     (case row of
        PDict r \<Rightarrow>
          (case subj_of r of
             Inl e \<Rightarrow> []
           | Inr None \<Rightarrow> []
           | Inr (Some subj) \<Rightarrow>
               if subj = [] then []
               else EnsureNode subj (subj_label_of r) #
                    (if raises_on_label (subj_label_of r) then [] else object_calls r subj))
      | _ \<Rightarrow> [])"

text \<open>The node ids, the label set of a node, and the dedup key of a stored edge.\<close>

definition node_ids :: "KGBuilder \<Rightarrow> string set" where
  "node_ids b = fst ` set (nodes b)"

definition labels_of :: "KGBuilder \<Rightarrow> string \<Rightarrow> pyval list" where
  "labels_of b qid = (case map_of (nodes b) qid of None \<Rightarrow> [] | Some n \<Rightarrow> labels n)"

definition edge_pair :: "edge \<Rightarrow> string \<times> pyval" where
  "edge_pair e = (pid_or_empty (property_id e), hkey (label_or_empty (property_label e)))"

definition edge_key :: "edge \<Rightarrow> edge_key" where
  "edge_key e = (source e, target e, edge_pair e)"

definition edge_keys :: "KGBuilder \<Rightarrow> edge_key set" where
  "edge_keys b = edge_key ` set (edges b)"

text \<open>The three dedup structures agree.\<close>

definition dedup_consistent :: "KGBuilder \<Rightarrow> bool" where
  "dedup_consistent b =
     (distinct (map edge_key (edges b)) \<and>
      edge_seen b = edge_keys b \<and>
      (\<forall>k. prop_counts b k = length (filter (\<lambda>e. edge_pair e = k) (edges b))))"

text \<open>Every stored edge joins two stored nodes.\<close>

definition endpoints_present :: "KGBuilder \<Rightarrow> bool" where
  "endpoints_present b =
     (\<forall>e \<in> set (edges b). source e \<in> node_ids b \<and> target e \<in> node_ids b)"

text \<open>All observed labels of all nodes are texts, and the texts of one node.\<close>

definition text_labels :: "KGBuilder \<Rightarrow> bool" where
  "text_labels b = (\<forall>qn \<in> set (nodes b). list_all is_str (labels (snd qn)))"

definition label_texts :: "KGBuilder \<Rightarrow> string \<Rightarrow> string set" where
  "label_texts b qid = the_str ` set (labels_of b qid)"

text \<open>
  A call that finds its work already done: the node is there with the label recorded
  (as \<^verbatim>\<open>in\<close> tests it), or the key is in \<open>edge_seen\<close>. A label that is falsy or
  unhashable, and a key that is unhashable, are never stored.
\<close>

definition recorded :: "KGBuilder \<Rightarrow> string \<Rightarrow> pyval \<Rightarrow> bool" where
  "recorded b qid lbl =
     (qid \<in> node_ids b \<and>
      (\<not> (truthy lbl \<and> hashable lbl) \<or> (\<exists>x \<in> set (labels_of b qid). py_eq x lbl)))"

definition absorbed :: "KGBuilder \<Rightarrow> call \<Rightarrow> bool" where
  "absorbed b c =
     (case c of
        EnsureNode qid lbl \<Rightarrow> recorded b qid lbl
      | AddEdge src dst pid prop_label \<Rightarrow>
          \<not> hashable (label_or_empty prop_label) \<or>
          (src, dst, pid_or_empty pid, hkey (label_or_empty prop_label)) \<in> edge_seen b)"

text \<open>The texts inside a value: its strings and its dict keys.\<close>

primrec texts :: "pyval \<Rightarrow> string list" where
  "texts PNone = []"
| "texts (PBool b) = []"
| "texts (PInt i) = []"
| "texts (PFloat r t) = []"
| "texts (PStr s) = [s]"
| "texts (PList xs) = concat (map texts xs)"
| "texts (PDict kvs) = concat (map (\<lambda>kv. fst kv # snd kv) (map (map_prod id texts) kvs))"

text \<open>
  A label set holds no two elements that Python's \<^verbatim>\<open>==\<close> equates. A row whose cells all
  give a text to \<open>get_value\<close> (null, a primitive, a list, or a wrapped value whose
  \<^verbatim>\<open>"value"\<close> field is a text or is missing) is a text row; rows that are not dicts make
  no call.
\<close>

definition labels_distinct :: "KGBuilder \<Rightarrow> bool" where
  "labels_distinct b = (\<forall>qn \<in> set (nodes b). distinct (map hkey (labels (snd qn))))"

definition text_row :: "pyval \<Rightarrow> bool" where
  "text_row row =
     (case row of PDict r \<Rightarrow> (\<forall>kc \<in> set r. is_str (get_value (snd kc))) | _ \<Rightarrow> True)"

text \<open>
  The normalised node as the specification words it, for a node whose labels are texts:
  the canonical label is the least observed text in the lexicographic order of the
  code points (the empty text when there is none), and \<^verbatim>\<open>labels\<close> is the sorted list of
  the distinct observed texts.
\<close>

definition canonical_node :: "string \<times> node \<Rightarrow> string \<times> node_norm" where
  "canonical_node qn =
     (fst qn, \<lparr>norm_id = fst qn,
               label = PStr (if the_str ` set (labels (snd qn)) = {} then ''''
                             else Min (the_str ` set (labels (snd qn)))),
               norm_labels = map PStr (sorted_list_of_set (the_str ` set (labels (snd qn))))\<rparr>)"

text \<open>A call that records nothing but a text.\<close>

definition text_call :: "call \<Rightarrow> bool" where
  "text_call c = (case c of EnsureNode q l \<Rightarrow> is_str l | _ \<Rightarrow> True)"

section \<open>Compact JSON text, read back\<close>

text \<open>
  What makes a text the compact JSON text of a value: the strict reader of JSON
  (RFC 8259: \<^verbatim>\<open>null\<close>, \<^verbatim>\<open>true\<close>, \<^verbatim>\<open>false\<close>, numbers, strings with their escapes, arrays
  and objects) that allows no white space between tokens reads the value back from it
  and leaves nothing unread. \<open>parse_value\<close> returns the value and the unread rest; its
  second argument bounds the number of nested calls. A raw control character inside a
  string, an escape that JSON does not have and a code point above 255 are refused.

  A number token that is not an integer is a float: its value is what Python's
  \<^verbatim>\<open>float\<close> gives for the token, the parameter \<open>float_of\<close> (rounding a decimal to the
  nearest double is not modelled). \<open>floats_ok\<close> says that every float inside a value
  carries a text that is such a token and that \<open>float_of\<close> maps back to its value, as
  \<^verbatim>\<open>float(repr(x)) == x\<close> has it.
\<close>

definition hex_val :: "char \<Rightarrow> nat option" where
  "hex_val c =
     (let n = code c in
      if 48 \<le> n \<and> n \<le> 57 then Some (n - 48)
      else if 97 \<le> n \<and> n \<le> 102 then Some (n - 87)
      else if 65 \<le> n \<and> n \<le> 70 then Some (n - 55)
      else None)"

definition unhex4 :: "char \<Rightarrow> char \<Rightarrow> char \<Rightarrow> char \<Rightarrow> nat option" where
  "unhex4 a b c d =
     (case (hex_val a, hex_val b, hex_val c, hex_val d) of
        (Some w, Some x, Some y, Some z) \<Rightarrow> Some (((w * 16 + x) * 16 + y) * 16 + z)
      | _ \<Rightarrow> None)"

definition unescape :: "char \<Rightarrow> char option" where
  "unescape e =
     (if e = CHR 0x22 \<or> e = CHR 0x5C \<or> e = CHR ''/'' then Some e
      else if e = CHR ''n'' then Some (CHR 0x0A)
      else if e = CHR ''r'' then Some (CHR 0x0D)
      else if e = CHR ''t'' then Some (CHR 0x09)
      else if e = CHR ''b'' then Some (CHR 0x08)
      else if e = CHR ''f'' then Some (CHR 0x0C)
      else None)"

definition consed :: "'a \<Rightarrow> ('a list \<times> 'b) option \<Rightarrow> ('a list \<times> 'b) option" where
  "consed x r = (case r of None \<Rightarrow> None | Some (xs, rest) \<Rightarrow> Some (x # xs, rest))"

fun parse_chars :: "string \<Rightarrow> (string \<times> string) option" where
  "parse_chars [] = None"
| "parse_chars (c # cs) =
     (if c = CHR 0x22 then Some ([], cs)
      else if c = CHR 0x5C then
        (case cs of
           [] \<Rightarrow> None
         | e # cs1 \<Rightarrow>
             if e = CHR ''u'' then
               (case cs1 of
                  h1 # h2 # h3 # h4 # cs2 \<Rightarrow>
                    (case unhex4 h1 h2 h3 h4 of
                       None \<Rightarrow> None
                     | Some n \<Rightarrow> if n < 256 then consed (char_of n) (parse_chars cs2) else None)
                | _ \<Rightarrow> None)
             else
               (case unescape e of
                  None \<Rightarrow> None
                | Some x \<Rightarrow> consed x (parse_chars cs1)))
      else if code c < 32 then None
      else consed c (parse_chars cs))"

definition num_char :: "char \<Rightarrow> bool" where
  "num_char c = (c \<in> set ''+-.0123456789eE'')"

definition int_token :: "string \<Rightarrow> bool" where
  "int_token t =
     (case t of
        [] \<Rightarrow> False
      | c # cs \<Rightarrow> if c = CHR ''-'' then cs \<noteq> [] \<and> list_all is_digit cs
                  else list_all is_digit (c # cs))"

definition digit_val :: "char \<Rightarrow> nat" where
  "digit_val c = code c - 48"

definition undec :: "string \<Rightarrow> nat" where
  "undec ds = foldl (\<lambda>a c. 10 * a + digit_val c) 0 ds"

definition int_of_token :: "string \<Rightarrow> int" where
  "int_of_token t =
     (case t of
        [] \<Rightarrow> 0
      | c # cs \<Rightarrow> if c = CHR ''-'' then - int (undec cs) else int (undec (c # cs)))"

definition parse_number :: "(string \<Rightarrow> rat option) \<Rightarrow> string \<Rightarrow> (pyval \<times> string) option" where
  "parse_number float_of s =
     (let t = takeWhile num_char s; rest = dropWhile num_char s in
      if int_token t then Some (PInt (int_of_token t), rest)
      else if t = [] then None
      else (case float_of t of None \<Rightarrow> None | Some r \<Rightarrow> Some (PFloat r t, rest)))"

fun parse_value :: "(string \<Rightarrow> rat option) \<Rightarrow> nat \<Rightarrow> string \<Rightarrow> (pyval \<times> string) option"
  and parse_items :: "(string \<Rightarrow> rat option) \<Rightarrow> nat \<Rightarrow> string \<Rightarrow> (pyval list \<times> string) option"
  and parse_members ::
    "(string \<Rightarrow> rat option) \<Rightarrow> nat \<Rightarrow> string \<Rightarrow> ((string \<times> pyval) list \<times> string) option"
where
  "parse_value float_of 0 s = None"
| "parse_value float_of (Suc n) s =
     (if take 4 s = ''null'' then Some (PNone, drop 4 s)
      else if take 4 s = ''true'' then Some (PBool True, drop 4 s)
      else if take 5 s = ''false'' then Some (PBool False, drop 5 s)
      else
        (case s of
           [] \<Rightarrow> None
         | c # cs \<Rightarrow>
             if c = CHR 0x22 then
               (case parse_chars cs of None \<Rightarrow> None | Some (t, rest) \<Rightarrow> Some (PStr t, rest))
             else if c = CHR ''['' then
               (if take 1 cs = '']'' then Some (PList [], drop 1 cs)
                else (case parse_items float_of n cs of
                        None \<Rightarrow> None
                      | Some (xs, rest) \<Rightarrow> Some (PList xs, rest)))
             else if c = CHR ''{'' then
               (if take 1 cs = ''}'' then Some (PDict [], drop 1 cs)
                else (case parse_members float_of n cs of
                        None \<Rightarrow> None
                      | Some (kvs, rest) \<Rightarrow> Some (PDict kvs, rest)))
             else parse_number float_of s))"
| "parse_items float_of 0 s = None"
| "parse_items float_of (Suc n) s =
     (case parse_value float_of n s of
        None \<Rightarrow> None
      | Some (v, rest) \<Rightarrow>
          (case rest of
             [] \<Rightarrow> None
           | c # cs \<Rightarrow>
               if c = CHR '','' then consed v (parse_items float_of n cs)
               else if c = CHR '']'' then Some ([v], cs)
               else None))"
| "parse_members float_of 0 s = None"
| "parse_members float_of (Suc n) s =
     (case s of
        [] \<Rightarrow> None
      | q # s1 \<Rightarrow>
          if q \<noteq> CHR 0x22 then None
          else
            (case parse_chars s1 of
               None \<Rightarrow> None
             | Some (k, s2) \<Rightarrow>
                 (case s2 of
                    [] \<Rightarrow> None
                  | colon # s3 \<Rightarrow>
                      if colon \<noteq> CHR '':'' then None
                      else
                        (case parse_value float_of n s3 of
                           None \<Rightarrow> None
                         | Some (v, rest) \<Rightarrow>
                             (case rest of
                                [] \<Rightarrow> None
                              | c # cs \<Rightarrow>
                                  if c = CHR '','' then consed (k, v) (parse_members float_of n cs)
                                  else if c = CHR ''}'' then Some ([(k, v)], cs)
                                  else None)))))"

definition delim :: "string \<Rightarrow> bool" where
  "delim rest = (case rest of [] \<Rightarrow> True | c # cs \<Rightarrow> \<not> num_char c)"

definition float_text :: "(string \<Rightarrow> rat option) \<Rightarrow> rat \<Rightarrow> string \<Rightarrow> bool" where
  "float_text float_of r t =
     (float_of t = Some r \<and> t \<noteq> [] \<and> list_all num_char t \<and> \<not> int_token t)"

primrec floats :: "pyval \<Rightarrow> (rat \<times> string) list" where
  "floats PNone = []"
| "floats (PBool b) = []"
| "floats (PInt i) = []"
| "floats (PFloat r t) = [(r, t)]"
| "floats (PStr s) = []"
| "floats (PList xs) = concat (map floats xs)"
| "floats (PDict kvs) = concat (map snd (map (map_prod id floats) kvs))"

definition floats_ok :: "(string \<Rightarrow> rat option) \<Rightarrow> pyval \<Rightarrow> bool" where
  "floats_ok float_of v = list_all (\<lambda>rt. float_text float_of (fst rt) (snd rt)) (floats v)"

definition member_text :: "string \<times> pyval \<Rightarrow> string" where
  "member_text kv = json_str (fst kv) @ '':'' @ json_text (snd kv)"

text \<open>A character that is neither a blank nor a control character.\<close>

definition visible :: "char \<Rightarrow> bool" where
  "visible c = (32 < code c)"

section \<open>Example inputs\<close>

text \<open>
  The row of the specification's round-trip scenario, in the shape a Wikidata query
  service export gives it (every cell a wrapped value), and a few variations.
\<close>

definition wrapped :: "string \<Rightarrow> pyval" where
  "wrapped s = PDict [(''type'', PStr ''literal''), (''value'', PStr s)]"

definition earth_row :: pyval where
  "earth_row = PDict
     [(''item'', wrapped ''http://www.wikidata.org/entity/Q1''),
      (''itemLabel'', wrapped ''Earth''),
      (''prop'', wrapped ''http://www.wikidata.org/prop/direct/P31''),
      (''propLabel'', wrapped ''instance of''),
      (''value'', wrapped ''http://www.wikidata.org/entity/Q2''),
      (''valueLabel'', wrapped ''Planet'')]"

definition earth_builder :: KGBuilder where
  "earth_builder =
     \<lparr>nodes = [(''Q1'', \<lparr>node_id = ''Q1'', labels = [PStr ''Earth'']\<rparr>),
               (''Q2'', \<lparr>node_id = ''Q2'', labels = [PStr ''Planet'']\<rparr>)],
      edges = [\<lparr>source = ''Q1'', target = ''Q2'', property_id = Some ''P31'',
                 property_label = PStr ''instance of''\<rparr>],
      edge_seen = {(''Q1'', ''Q2'', ''P31'', PStr ''instance of'')},
      prop_counts = (\<lambda>k. 0)((''P31'', PStr ''instance of'') := 1)\<rparr>"

text \<open>Two files with the same row: a query service export and a bare list.\<close>

definition two_files :: "(error + pyval) list" where
  "two_files =
     [Inr (PDict [(''head'', PDict [(''vars'', PList [PStr ''item''])]),
                  (''results'', PDict [(''bindings'', PList [earth_row])])]),
      Inr (PList [earth_row])]"

text \<open>
  A row with no subject column, and a row whose object is a literal (no entity id).
\<close>

definition no_subject_row :: "(string \<times> pyval) list" where
  "no_subject_row =
     [(''itemLabel'', wrapped ''Earth''),
      (''value'', wrapped ''http://www.wikidata.org/entity/Q2'')]"

definition literal_row :: "(string \<times> pyval) list" where
  "literal_row =
     [(''item'', wrapped ''http://www.wikidata.org/entity/Q1''),
      (''itemLabel'', wrapped ''Earth''),
      (''prop'', wrapped ''http://www.wikidata.org/prop/direct/P2067''),
      (''value'', wrapped ''5.97e24'')]"

text \<open>A row with a property id and no property label.\<close>

definition unlabelled_prop_row :: "(string \<times> pyval) list" where
  "unlabelled_prop_row =
     [(''item1'', wrapped ''http://www.wikidata.org/entity/Q1''),
      (''p'', wrapped ''http://www.wikidata.org/prop/direct/P31''),
      (''propLabel'', wrapped ''''),
      (''item2'', wrapped ''http://www.wikidata.org/entity/Q2'')]"

text \<open>
  A nested attribute value, \<^verbatim>\<open>[-12, 1.5, {"k": None}, True]\<close>, and \<^verbatim>\<open>float\<close> on the one
  float token it needs.
\<close>

definition nested_attr :: pyval where
  "nested_attr = PList [PInt (-12), PFloat (3 / 2) ''1.5'', PDict [(''k'', PNone)], PBool True]"

definition float_of_1_5 :: "string \<Rightarrow> rat option" where
  "float_of_1_5 t = (if t = ''1.5'' then Some (3 / 2) else None)"

text \<open>Three observations of one entity under the labels Beta, Alpha and alpha.\<close>

definition labelled :: "string \<Rightarrow> pyval" where
  "labelled l = PDict [(''item'', wrapped ''http://www.wikidata.org/entity/Q1''),
                       (''itemLabel'', wrapped l)]"

definition label_files :: "(error + pyval) list" where
  "label_files = [Inr (PList [labelled ''Beta'', labelled ''Alpha'']),
                  Inl ReadError,
                  Inr (PList [labelled ''alpha'', labelled ''Beta''])]"






section \<open>The two upsert methods, call by call\<close>

lemma add_label_fst: "map fst (add_label q l ns) = map fst ns"
  by (induction ns) auto

lemma map_of_add_label:
  "map_of (add_label q l ns) k =
     (if k = q then map_option (\<lambda>n. n\<lparr>labels := set_add (labels n) l\<rparr>) (map_of ns q)
      else map_of ns k)"
  by (induction ns) auto

lemma ensure_node_snd:
  "snd (ensure_node b q l) = (if raises_on_label l then Some TypeError else None)"
  by (simp add: ensure_node_def raises_on_label_def Let_def)

lemma ensure_node_edges:
  "edges (fst (ensure_node b q l)) = edges b"
  "edge_seen (fst (ensure_node b q l)) = edge_seen b"
  "prop_counts (fst (ensure_node b q l)) = prop_counts b"
  by (simp_all add: ensure_node_def Let_def split: option.splits)

lemma map_of_Some_mem: "map_of ns q = Some n \<Longrightarrow> q \<in> fst ` set ns"
  by (metis map_of_eq_None_iff option.distinct(1))

lemma ensure_node_map_fst:
  "map fst (nodes (fst (ensure_node b q l))) =
     (if q \<in> node_ids b then map fst (nodes b) else map fst (nodes b) @ [q])"
  by (auto simp: ensure_node_def Let_def add_label_fst node_ids_def map_of_eq_None_iff
           split: option.splits dest: map_of_Some_mem)

lemma ensure_node_ids: "node_ids (fst (ensure_node b q l)) = insert q (node_ids b)"
proof -
  have "node_ids (fst (ensure_node b q l)) = set (map fst (nodes (fst (ensure_node b q l))))"
    by (simp add: node_ids_def)
  also have "\<dots> = insert q (node_ids b)"
    unfolding ensure_node_map_fst by (auto simp: node_ids_def)
  finally show ?thesis .
qed

lemma ensure_node_distinct:
  "distinct (map fst (nodes b)) \<Longrightarrow> distinct (map fst (nodes (fst (ensure_node b q l))))"
  unfolding ensure_node_map_fst by (auto simp: node_ids_def)

lemma ensure_node_labels:
  "labels_of (fst (ensure_node b q l)) k =
     (if k = q \<and> truthy l \<and> hashable l then set_add (labels_of b q) l else labels_of b k)"
  by (auto simp: ensure_node_def Let_def labels_of_def map_of_add_label set_add_def
           split: option.splits)

lemma add_edge_nodes: "nodes (fst (add_edge b s d p l)) = nodes b"
  by (simp add: add_edge_def Let_def)

lemma add_edge_snd:
  "snd (add_edge b s d p l) = (if hashable (label_or_empty l) then None else Some TypeError)"
  by (simp add: add_edge_def Let_def)

lemma add_edge_seen:
  "edge_seen (fst (add_edge b s d p l)) =
     (if hashable (label_or_empty l)
      then insert (s, d, pid_or_empty p, hkey (label_or_empty l)) (edge_seen b)
      else edge_seen b)"
  by (auto simp: add_edge_def Let_def)

lemma add_edge_edges:
  "edges (fst (add_edge b s d p l)) =
     (if hashable (label_or_empty l) \<and>
         (s, d, pid_or_empty p, hkey (label_or_empty l)) \<notin> edge_seen b
      then edges b @ [\<lparr>source = s, target = d, property_id = p, property_label = l\<rparr>]
      else edges b)"
  by (auto simp: add_edge_def Let_def)

lemma add_edge_consistent:
  "dedup_consistent b \<Longrightarrow> dedup_consistent (fst (add_edge b s d p l))"
  by (auto simp: dedup_consistent_def add_edge_def Let_def edge_keys_def edge_key_def edge_pair_def)

lemma ensure_node_consistent:
  "dedup_consistent b \<Longrightarrow> dedup_consistent (fst (ensure_node b q l))"
  by (simp add: dedup_consistent_def edge_keys_def ensure_node_edges)

subsection \<open>A row as its calls; the loops as one sequence of calls\<close>

lemma ensure_node_case:
  "(case ensure_node b q l of (b1, None) \<Rightarrow> g b1 | (b1, Some e) \<Rightarrow> (b1, Some e)) =
     (if raises_on_label l then (fst (ensure_node b q l), Some TypeError)
      else g (fst (ensure_node b q l)))"
  using ensure_node_snd [of b q l]
  by (cases "ensure_node b q l") (auto split: option.splits)

lemma process_row_calls: "fst (process_row b row) = run_calls b (row_calls row)"
  by (simp add: process_row_def row_calls_def object_calls_def run_calls_def do_call_def
        ensure_node_case
      split: pyval.splits sum.splits option.splits)

lemma run_calls_append: "run_calls b (cs @ ds) = run_calls (run_calls b cs) ds"
  by (simp add: run_calls_def)

lemma ingest_calls: "ingest b rows = run_calls b (concat (map row_calls rows))"
  by (induction rows arbitrary: b)
     (simp_all add: ingest_def run_calls_def process_row_calls [unfolded run_calls_def])

lemma ingest_files_rows: "ingest_files b files = ingest b (concat (map file_rows files))"
  by (induction files arbitrary: b) (simp_all add: ingest_files_def ingest_def)

lemma do_call_consistent: "dedup_consistent b \<Longrightarrow> dedup_consistent (do_call b c)"
  by (cases c) (simp_all add: do_call_def add_edge_consistent ensure_node_consistent)

lemma run_calls_consistent: "dedup_consistent b \<Longrightarrow> dedup_consistent (run_calls b cs)"
  by (induction cs arbitrary: b) (simp_all add: run_calls_def do_call_consistent)

lemma init_consistent: "dedup_consistent init"
  by (simp add: dedup_consistent_def init_def edge_keys_def)

lemma do_call_distinct:
  "distinct (map fst (nodes b)) \<Longrightarrow> distinct (map fst (nodes (do_call b c)))"
  by (cases c) (simp_all add: do_call_def ensure_node_distinct add_edge_nodes)

lemma run_calls_distinct:
  "distinct (map fst (nodes b)) \<Longrightarrow> distinct (map fst (nodes (run_calls b cs)))"
  by (induction cs arbitrary: b) (simp_all add: run_calls_def do_call_distinct)

subsection \<open>Calls that change nothing\<close>

lemma add_label_same:
  "map_of ns q = Some n \<Longrightarrow> set_add (labels n) l = labels n \<Longrightarrow> add_label q l ns = ns"
  by (induction ns) (auto split: if_splits)

lemma set_add_absorb: "\<exists>x \<in> set ls. py_eq x l \<Longrightarrow> set_add ls l = ls"
  by (simp add: set_add_def)

lemma set_add_has: "\<exists>x \<in> set (set_add ls l). py_eq x l"
  by (auto simp: set_add_def py_eq_def)

lemma set_add_mono: "set ls \<subseteq> set (set_add ls l)"
  by (auto simp: set_add_def)

lemma ensure_node_absorbed: "recorded b q l \<Longrightarrow> fst (ensure_node b q l) = b"
proof -
  assume r: "recorded b q l"
  then have "q \<in> fst ` set (nodes b)"
    by (simp add: recorded_def node_ids_def)
  then obtain n where n: "map_of (nodes b) q = Some n"
    by (metis map_of_eq_None_iff not_Some_eq)
  show ?thesis
  proof (cases "truthy l \<and> hashable l")
    case True
    with r n have "set_add (labels n) l = labels n"
      by (simp add: recorded_def labels_of_def set_add_absorb)
    with n have "add_label q l (nodes b) = nodes b"
      by (rule add_label_same)
    with True n show ?thesis
      by (simp add: ensure_node_def)
  next
    case False
    with n show ?thesis
      by (auto simp: ensure_node_def)
  qed
qed

lemma add_edge_absorbed:
  "\<not> hashable (label_or_empty l) \<or>
   (s, d, pid_or_empty p, hkey (label_or_empty l)) \<in> edge_seen b \<Longrightarrow>
   fst (add_edge b s d p l) = b"
  by (auto simp: add_edge_def)

lemma do_call_absorbed: "absorbed b c \<Longrightarrow> do_call b c = b"
  by (cases c) (simp_all add: absorbed_def do_call_def ensure_node_absorbed add_edge_absorbed)

lemma recorded_after: "recorded (fst (ensure_node b q l)) q l"
  by (simp add: recorded_def ensure_node_ids ensure_node_labels set_add_has)

lemma recorded_ensure_node:
  "recorded b q l \<Longrightarrow> recorded (fst (ensure_node b q' l')) q l"
  using set_add_mono [of "labels_of b q" l']
  by (auto simp: recorded_def ensure_node_ids ensure_node_labels)

lemma recorded_add_edge:
  "recorded b q l \<Longrightarrow> recorded (fst (add_edge b s d p pl)) q l"
  by (simp add: recorded_def node_ids_def labels_of_def add_edge_nodes)

lemma absorbed_after: "absorbed (do_call b c) c"
  by (cases c) (simp_all add: absorbed_def do_call_def recorded_after add_edge_seen)

lemma absorbed_do_call: "absorbed b c \<Longrightarrow> absorbed (do_call b c') c"
  by (cases c; cases c')
     (auto simp: absorbed_def do_call_def recorded_ensure_node recorded_add_edge
        ensure_node_edges add_edge_seen)

lemma absorbed_run_calls: "absorbed b c \<Longrightarrow> absorbed (run_calls b cs) c"
  by (induction cs arbitrary: b) (simp_all add: run_calls_def absorbed_do_call)

lemma absorbed_member: "c \<in> set cs \<Longrightarrow> absorbed (run_calls b cs) c"
proof (induction cs arbitrary: b)
  case Nil
  then show ?case by simp
next
  case (Cons a cs)
  show ?case
  proof (cases "c = a")
    case True
    have "absorbed (run_calls (do_call b a) cs) a"
      by (rule absorbed_run_calls) (rule absorbed_after)
    with True show ?thesis by (simp add: run_calls_def)
  next
    case False
    with Cons.prems have "c \<in> set cs" by simp
    then have "absorbed (run_calls (do_call b a) cs) c" by (rule Cons.IH)
    then show ?thesis by (simp add: run_calls_def)
  qed
qed

lemma run_calls_absorbed: "\<forall>c \<in> set cs. absorbed b c \<Longrightarrow> run_calls b cs = b"
  by (induction cs) (simp_all add: run_calls_def do_call_absorbed)

lemma run_calls_repeat: "set ds \<subseteq> set cs \<Longrightarrow> run_calls (run_calls b cs) ds = run_calls b cs"
  by (rule run_calls_absorbed) (auto intro: absorbed_member)

lemma process_row_repeat:
  "row \<in> set rows \<Longrightarrow> fst (process_row (ingest b rows) row) = ingest b rows"
  unfolding process_row_calls ingest_calls
  by (rule run_calls_repeat) auto

subsection \<open>What a row resolves to\<close>

lemma match_here_nonempty: "match_here lit L s = Some g \<Longrightarrow> g \<noteq> []"
  by (auto simp: match_here_def Let_def split: if_splits)

lemma re_search_nonempty: "re_search lit L s = Some g \<Longrightarrow> g \<noteq> []"
  by (induction s) (auto split: option.splits dest: match_here_nonempty)

lemma extract_qid_nonempty: "extract_qid x = Inr (Some g) \<Longrightarrow> g \<noteq> []"
  by (auto simp: extract_qid_def QID_RE_def split: pyval.splits dest: re_search_nonempty)

lemma extract_pid_nonempty: "extract_pid x = Inr (Some g) \<Longrightarrow> g \<noteq> []"
  by (auto simp: extract_pid_def PID_RE_def split: pyval.splits dest: re_search_nonempty)

lemma or_id_nonempty:
  "or_id a c = Inr (Some g) \<Longrightarrow> (c = Inr (Some g) \<Longrightarrow> g \<noteq> []) \<Longrightarrow> g \<noteq> []"
  by (auto simp: or_id_def split: sum.splits option.splits if_splits)

lemma subj_of_nonempty: "subj_of r = Inr (Some g) \<Longrightarrow> g \<noteq> []"
  unfolding subj_of_def by (erule or_id_nonempty) (rule extract_qid_nonempty)

lemma obj_of_nonempty: "obj_of r = Inr (Some g) \<Longrightarrow> g \<noteq> []"
  unfolding obj_of_def by (erule or_id_nonempty) (rule extract_qid_nonempty)

lemma pid_of_nonempty: "pid_of r = Inr (Some g) \<Longrightarrow> g \<noteq> []"
  unfolding pid_of_def by (erule or_id_nonempty) (rule extract_pid_nonempty)

lemma row_calls_no_subject:
  "\<forall>s. subj_of r \<noteq> Inr (Some s) \<Longrightarrow> row_calls (PDict r) = []"
  by (auto simp: row_calls_def split: sum.splits option.splits)

lemma row_calls_no_object:
  "subj_of r = Inr (Some subj) \<Longrightarrow> \<forall>obj. obj_of r \<noteq> Inr (Some obj) \<Longrightarrow>
   row_calls (PDict r) = [EnsureNode subj (subj_label_of r)]"
  by (auto simp: row_calls_def object_calls_def subj_of_nonempty split: sum.splits option.splits)

lemma process_row_edges:
  "edges (fst (process_row b (PDict r))) = edges b \<or>
   (\<exists>s ob p. subj_of r = Inr (Some s) \<and> obj_of r = Inr (Some ob) \<and> pid_of r = Inr p \<and>
      edges (fst (process_row b (PDict r))) =
        edges b @ [\<lparr>source = s, target = ob, property_id = p,
                     property_label = prop_label_of r p\<rparr>])"
  by (simp add: process_row_calls row_calls_def object_calls_def run_calls_def do_call_def
        ensure_node_edges add_edge_edges
      split: sum.splits option.splits)

lemma hkey_is_text: "hkey x = PStr t \<Longrightarrow> x = PStr t"
  by (cases x) (simp_all split: if_splits)

lemma prop_label_truthy: "pid \<noteq> [] \<Longrightarrow> truthy (prop_label_of r (Some pid))"
  by (simp add: prop_label_of_def py_or_def opt_val_def)

lemma prop_label_falls_back:
  "\<not> truthy (get_value (dget r ''propLabel'')) \<Longrightarrow> \<not> truthy (get_value (dget r ''pl_'')) \<Longrightarrow>
   prop_label_of r (Some pid) = PStr pid"
  by (simp add: prop_label_of_def py_or_def opt_val_def)

subsection \<open>The compact JSON text\<close>

lemma json_text_dict:
  "json_text (PDict kvs) =
     ''{'' @ join '','' (map (\<lambda>(k, v). json_str k @ '':'' @ json_text v) kvs) @ ''}''"
  by (simp add: comp_def case_prod_unfold)

lemma json_char_plain: "c \<noteq> CHR 0x22 \<Longrightarrow> c \<noteq> CHR 0x5C \<Longrightarrow> 32 \<le> code c \<Longrightarrow> json_char c = [c]"
  by (auto simp: json_char_def code_def)

lemma concat_json_char_plain:
  "\<forall>c \<in> set s. c \<noteq> CHR 0x22 \<and> c \<noteq> CHR 0x5C \<and> 32 \<le> code c \<Longrightarrow>
   concat (map json_char s) = s"
  by (induction s) (simp_all add: json_char_plain)

lemma json_str_plain:
  "\<forall>c \<in> set s. c \<noteq> CHR 0x22 \<and> c \<noteq> CHR 0x5C \<and> 32 \<le> code c \<Longrightarrow>
   json_str s = CHR 0x22 # s @ [CHR 0x22]"
  by (simp add: json_str_def concat_json_char_plain)

subsection \<open>Reading the compact JSON text back\<close>

lemma code_hex_digit:
  "k < 16 \<Longrightarrow> code (''0123456789abcdef'' ! k) = (if k < 10 then 48 + k else 87 + k)"
proof -
  assume "k < 16"
  then have "k = 0 \<or> k = 1 \<or> k = 2 \<or> k = 3 \<or> k = 4 \<or> k = 5 \<or> k = 6 \<or> k = 7 \<or>
      k = 8 \<or> k = 9 \<or> k = 10 \<or> k = 11 \<or> k = 12 \<or> k = 13 \<or> k = 14 \<or> k = 15"
    by arith
  then show ?thesis
    by (elim disjE) (simp_all add: code_def)
qed

lemma hex_val_digit: "k < 16 \<Longrightarrow> hex_val (''0123456789abcdef'' ! k) = Some k"
  by (simp add: hex_val_def code_hex_digit Let_def del: nth_Cons_numeral)

lemma unhex4_hex2:
  "n < 256 \<Longrightarrow>
   unhex4 (CHR ''0'') (CHR ''0'') (''0123456789abcdef'' ! (n div 16 mod 16))
     (''0123456789abcdef'' ! (n mod 16)) = Some n"
proof -
  assume n: "n < 256"
  have z: "hex_val (CHR ''0'') = Some 0"
    by (simp add: hex_val_def code_def)
  have a: "hex_val (''0123456789abcdef'' ! (n div 16 mod 16)) = Some (n div 16 mod 16)"
    by (rule hex_val_digit) simp
  have b: "hex_val (''0123456789abcdef'' ! (n mod 16)) = Some (n mod 16)"
    by (rule hex_val_digit) simp
  have "unhex4 (CHR ''0'') (CHR ''0'') (''0123456789abcdef'' ! (n div 16 mod 16))
     (''0123456789abcdef'' ! (n mod 16)) =
     Some (((0 * 16 + 0) * 16 + n div 16 mod 16) * 16 + n mod 16)"
    by (simp add: unhex4_def z a b del: nth_Cons_numeral)
  moreover have "((0 * 16 + 0) * 16 + n div 16 mod 16) * 16 + n mod 16 = n"
  proof -
    from n have "n div 16 < 16"
      by (intro less_mult_imp_div_less) simp
    then have "n div 16 mod 16 = n div 16"
      by (rule mod_less)
    then show ?thesis
      by (simp add: div_mult_mod_eq)
  qed
  ultimately show ?thesis
    by simp
qed

lemma code_below: "code c < 256"
  by (simp add: code_def)

lemma char_of_code: "char_of (code c) = c"
  by (simp add: code_def)

lemma parse_chars_json_char:
  "parse_chars (json_char c @ rest) = consed c (parse_chars rest)"
proof -
  consider (named) "c = CHR 0x22 \<or> c = CHR 0x5C \<or> c = CHR 0x0A \<or> c = CHR 0x0D \<or>
      c = CHR 0x09 \<or> c = CHR 0x08 \<or> c = CHR 0x0C"
    | (control) "c \<noteq> CHR 0x22" "c \<noteq> CHR 0x5C" "c \<noteq> CHR 0x0A" "c \<noteq> CHR 0x0D"
        "c \<noteq> CHR 0x09" "c \<noteq> CHR 0x08" "c \<noteq> CHR 0x0C" "code c < 32"
    | (plain) "c \<noteq> CHR 0x22" "c \<noteq> CHR 0x5C" "c \<noteq> CHR 0x0A" "c \<noteq> CHR 0x0D"
        "c \<noteq> CHR 0x09" "c \<noteq> CHR 0x08" "c \<noteq> CHR 0x0C" "\<not> code c < 32"
    by blast
  then show ?thesis
  proof cases
    case named
    then show ?thesis
      by (auto simp: json_char_def unescape_def)
  next
    case control
    have "unhex4 (CHR ''0'') (CHR ''0'') (''0123456789abcdef'' ! (code c div 16 mod 16))
       (''0123456789abcdef'' ! (code c mod 16)) = Some (code c)"
      by (rule unhex4_hex2) (rule code_below)
    with control show ?thesis
      by (simp add: json_char_def hex2_def char_of_code code_below del: nth_Cons_numeral)
  next
    case plain
    then show ?thesis
      by (simp add: json_char_def)
  qed
qed

lemma parse_chars_json:
  "parse_chars (concat (map json_char s) @ CHR 0x22 # rest) = Some (s, rest)"
  by (induction s) (simp_all add: parse_chars_json_char consed_def)

lemma code_digit: "k < 10 \<Longrightarrow> code (''0123456789'' ! k) = 48 + k"
proof -
  assume "k < 10"
  then have "k = 0 \<or> k = 1 \<or> k = 2 \<or> k = 3 \<or> k = 4 \<or> k = 5 \<or> k = 6 \<or> k = 7 \<or>
      k = 8 \<or> k = 9"
    by arith
  then show ?thesis
    by (elim disjE) (simp_all add: code_def)
qed

lemma digit_is_digit: "k < 10 \<Longrightarrow> is_digit (''0123456789'' ! k)"
  unfolding is_digit_def by (rule nth_mem) simp

lemma digit_val_digit: "k < 10 \<Longrightarrow> digit_val (''0123456789'' ! k) = k"
  by (simp add: digit_val_def code_digit del: nth_Cons_numeral)

lemma dec_nat_digits: "list_all is_digit (dec_nat n) \<and> dec_nat n \<noteq> []"
proof (induction n rule: dec_nat.induct)
  case (1 n)
  show ?case
  proof (cases "n < 10")
    case True
    then show ?thesis
      using digit_is_digit [of n] by (subst (1 2) dec_nat.simps) (simp del: nth_Cons_numeral)
  next
    case False
    then show ?thesis
      using 1 digit_is_digit [of "n mod 10"]
      by (subst (1 2) dec_nat.simps) (simp del: nth_Cons_numeral)
  qed
qed

lemma undec_snoc: "undec (ds @ [c]) = 10 * undec ds + digit_val c"
  by (simp add: undec_def)

lemma undec_dec_nat: "undec (dec_nat n) = n"
proof (induction n rule: dec_nat.induct)
  case (1 n)
  show ?case
  proof (cases "n < 10")
    case True
    then show ?thesis
      by (subst dec_nat.simps) (simp add: undec_def digit_val_digit del: nth_Cons_numeral)
  next
    case False
    then have "undec (dec_nat n) = 10 * undec (dec_nat (n div 10)) + digit_val (''0123456789'' ! (n mod 10))"
      by (subst dec_nat.simps) (simp add: undec_snoc del: nth_Cons_numeral)
    with False 1 show ?thesis
      by (simp add: digit_val_digit del: nth_Cons_numeral)
  qed
qed

lemma is_digit_num_char: "is_digit c \<Longrightarrow> num_char c"
  by (auto simp: is_digit_def num_char_def)

lemma is_digit_not_minus: "is_digit c \<Longrightarrow> c \<noteq> CHR ''-''"
  by (auto simp: is_digit_def)

lemma digits_num_chars: "list_all is_digit ds \<Longrightarrow> list_all num_char ds"
  by (induction ds) (simp_all add: is_digit_num_char)

lemma int_token_digits: "ds \<noteq> [] \<Longrightarrow> list_all is_digit ds \<Longrightarrow> int_token ds"
  by (cases ds) (auto simp: int_token_def is_digit_not_minus)

lemma int_of_token_digits:
  "ds \<noteq> [] \<Longrightarrow> list_all is_digit ds \<Longrightarrow> int_of_token ds = int (undec ds)"
  by (cases ds) (auto simp: int_of_token_def is_digit_not_minus)

lemma str_int_token:
  "int_token (str_int i) \<and> int_of_token (str_int i) = i \<and>
   list_all num_char (str_int i) \<and> str_int i \<noteq> []"
proof (cases "i < 0")
  case True
  with dec_nat_digits [of "nat (- i)"] show ?thesis
    by (simp add: str_int_def int_token_def int_of_token_def undec_dec_nat digits_num_chars
        num_char_def)
next
  case False
  with dec_nat_digits [of "nat i"] show ?thesis
    by (simp add: str_int_def int_token_digits int_of_token_digits undec_dec_nat
        digits_num_chars)
qed

lemma takeWhile_token:
  "list_all num_char t \<Longrightarrow> delim rest \<Longrightarrow>
   takeWhile num_char (t @ rest) = t \<and> dropWhile num_char (t @ rest) = rest"
  by (induction t) (auto simp: delim_def split: list.splits)

lemma parse_number_int:
  "delim rest \<Longrightarrow> parse_number float_of (str_int i @ rest) = Some (PInt i, rest)"
  using str_int_token [of i] by (simp add: parse_number_def takeWhile_token)

lemma parse_number_float:
  "float_text float_of r t \<Longrightarrow> delim rest \<Longrightarrow>
   parse_number float_of (t @ rest) = Some (PFloat r t, rest)"
  by (simp add: parse_number_def float_text_def takeWhile_token)

lemma num_char_first:
  "num_char c \<Longrightarrow>
   c \<noteq> CHR ''n'' \<and> c \<noteq> CHR ''t'' \<and> c \<noteq> CHR ''f'' \<and> c \<noteq> CHR 0x22 \<and> c \<noteq> CHR ''['' \<and>
   c \<noteq> CHR ''{'' \<and> c \<noteq> CHR '']'' \<and> c \<noteq> CHR ''}'' \<and> c \<noteq> CHR '',''"
  by (auto simp: num_char_def)

lemma parse_value_number:
  "t \<noteq> [] \<Longrightarrow> list_all num_char t \<Longrightarrow>
   parse_value float_of (Suc n) (t @ rest) = parse_number float_of (t @ rest)"
proof -
  assume "t \<noteq> []" and n: "list_all num_char t"
  then obtain c cs where t: "t = c # cs"
    by (cases t) auto
  with n have "num_char c"
    by simp
  then show ?thesis
    using num_char_first [of c] by (simp add: t)
qed

lemma floats_ok_item: "floats_ok F (PList xs) \<Longrightarrow> x \<in> set xs \<Longrightarrow> floats_ok F x"
  by (auto simp: floats_ok_def list_all_iff)

lemma floats_ok_member: "floats_ok F (PDict kvs) \<Longrightarrow> (k, v) \<in> set kvs \<Longrightarrow> floats_ok F v"
  by (fastforce simp: floats_ok_def list_all_iff)

lemma join_single: "join sep [x] = x"
  by (simp add: join_def)

lemma join_more: "join sep (x # y # ys) = x @ sep @ join sep (y # ys)"
  by (simp add: join_def)

lemma delim_simps: "delim []" "delim (CHR '']'' # r)" "delim (CHR '','' # r)" "delim (CHR ''}'' # r)"
  by (simp_all add: delim_def num_char_def)

lemma json_text_first:
  "floats_ok F v \<Longrightarrow> \<exists>c cs. json_text v = c # cs \<and> c \<noteq> CHR '']''"
proof (cases v)
  case (PInt i)
  from str_int_token [of i] obtain c cs where "str_int i = c # cs" "num_char c"
    by (cases "str_int i") auto
  with PInt show ?thesis
    using num_char_first [of c] by simp
next
  case (PFloat r t)
  assume "floats_ok F v"
  with PFloat obtain c cs where "t = c # cs" "num_char c"
    by (cases t) (auto simp: floats_ok_def float_text_def)
  with PFloat show ?thesis
    using num_char_first [of c] by simp
qed (simp_all add: json_str_def)

lemma parse_items_json:
  assumes "\<And>x m rest. x \<in> set xs \<Longrightarrow> size x < m \<Longrightarrow> delim rest \<Longrightarrow>
             parse_value F m (json_text x @ rest) = Some (x, rest)"
  shows "xs \<noteq> [] \<Longrightarrow> size_list size xs < m \<Longrightarrow>
         parse_items F m (join '','' (map json_text xs) @ CHR '']'' # rest) = Some (xs, rest)"
  using assms
proof (induction xs arbitrary: m)
  case Nil
  then show ?case by simp
next
  case (Cons x xs)
  from Cons.prems(2) obtain k where m: "m = Suc k"
    by (cases m) auto
  with Cons.prems(2) have k: "size x < k" "size_list size xs < k"
    by simp_all
  show ?case
  proof (cases xs)
    case Nil
    have "parse_value F k (json_text x @ CHR '']'' # rest) = Some (x, CHR '']'' # rest)"
      using k by (intro Cons.prems(3)) (simp_all add: delim_simps)
    with Nil show ?thesis
      by (simp add: m join_single)
  next
    case (Cons y ys)
    have 1: "parse_value F k (json_text x @ CHR '','' # join '','' (map json_text xs) @ CHR '']'' # rest) =
        Some (x, CHR '','' # join '','' (map json_text xs) @ CHR '']'' # rest)"
      using k by (intro Cons.prems(3)) (simp_all add: delim_simps)
    have 2: "parse_items F k (join '','' (map json_text xs) @ CHR '']'' # rest) = Some (xs, rest)"
      using k Cons by (intro Cons.IH Cons.prems(3)) simp_all
    from 1 2 Cons show ?thesis
      by (simp add: m join_more consed_def)
  qed
qed

lemma json_text_members:
  "json_text (PDict kvs) = ''{'' @ join '','' (map member_text kvs) @ ''}''"
  by (simp add: comp_def member_text_def [abs_def])

lemma member_text_pair:
  "member_text (k, v) = CHR 0x22 # concat (map json_char k) @ CHR 0x22 # CHR '':'' # json_text v"
  by (simp add: member_text_def json_str_def)

lemma parse_members_json:
  assumes "\<And>kv m rest. kv \<in> set kvs \<Longrightarrow> size (snd kv) < m \<Longrightarrow> delim rest \<Longrightarrow>
             parse_value F m (json_text (snd kv) @ rest) = Some (snd kv, rest)"
  shows "kvs \<noteq> [] \<Longrightarrow> size_list (\<lambda>kv. size (snd kv)) kvs < m \<Longrightarrow>
         parse_members F m (join '','' (map member_text kvs) @ CHR ''}'' # rest) = Some (kvs, rest)"
  using assms
proof (induction kvs arbitrary: m)
  case Nil
  then show ?case by simp
next
  case (Cons kv kvs)
  obtain k v where kv: "kv = (k, v)"
    by (cases kv)
  from Cons.prems(2) obtain n where m: "m = Suc n"
    by (cases m) auto
  with Cons.prems(2) have n: "size v < n" "size_list (\<lambda>kv. size (snd kv)) kvs < n"
    by (simp_all add: kv)
  have key: "parse_chars (concat (map json_char k) @ CHR 0x22 # CHR '':'' # tail) =
      Some (k, CHR '':'' # tail)" for tail
    by (rule parse_chars_json)
  show ?case
  proof (cases kvs)
    case Nil
    have "parse_value F n (json_text (snd kv) @ CHR ''}'' # rest) = Some (snd kv, CHR ''}'' # rest)"
      using n by (intro Cons.prems(3)) (simp_all add: delim_simps kv)
    with Nil show ?thesis
      by (simp add: m join_single member_text_pair kv key)
  next
    case (Cons kv' kvs')
    have 1: "parse_value F n
        (json_text (snd kv) @ CHR '','' # join '','' (map member_text kvs) @ CHR ''}'' # rest) =
        Some (snd kv, CHR '','' # join '','' (map member_text kvs) @ CHR ''}'' # rest)"
      using n by (intro Cons.prems(3)) (simp_all add: delim_simps kv)
    have 2: "parse_members F n (join '','' (map member_text kvs) @ CHR ''}'' # rest) =
        Some (kvs, rest)"
      using n Cons by (intro Cons.IH Cons.prems(3)) simp_all
    from 1 2 Cons show ?thesis
      by (simp add: m join_more member_text_pair kv key consed_def)
  qed
qed

lemma size_list_snd:
  "size_list (\<lambda>kv. size (snd kv)) kvs \<le> size_list (size_prod (\<lambda>k. 0) size) kvs"
  by (induction kvs) auto

lemma parse_value_json:
  "floats_ok F v \<Longrightarrow> size v < n \<Longrightarrow> delim rest \<Longrightarrow>
   parse_value F n (json_text v @ rest) = Some (v, rest)"
proof (induction v arbitrary: n rest)
  case PNone
  then obtain m where "n = Suc m" by (cases n) auto
  then show ?case by simp
next
  case (PBool b)
  then obtain m where "n = Suc m" by (cases n) auto
  then show ?case by simp
next
  case (PInt i)
  then obtain m where n: "n = Suc m" by (cases n) auto
  have "parse_value F (Suc m) (str_int i @ rest) = parse_number F (str_int i @ rest)"
    using str_int_token [of i] by (intro parse_value_number) simp_all
  with PInt.prems(3) show ?case
    by (simp add: n parse_number_int)
next
  case (PFloat r t)
  then obtain m where n: "n = Suc m" by (cases n) auto
  from PFloat.prems(1) have f: "float_text F r t"
    by (simp add: floats_ok_def)
  then have "parse_value F (Suc m) (t @ rest) = parse_number F (t @ rest)"
    by (intro parse_value_number) (simp_all add: float_text_def)
  with f PFloat.prems(3) show ?case
    by (simp add: n parse_number_float)
next
  case (PStr s)
  then obtain m where n: "n = Suc m" by (cases n) auto
  show ?case
    by (simp add: n json_str_def parse_chars_json)
next
  case (PList xs)
  then obtain m where n: "n = Suc m" by (cases n) auto
  show ?case
  proof (cases "xs = []")
    case True
    then show ?thesis
      by (simp add: n join_def)
  next
    case False
    have i: "parse_items F m (join '','' (map json_text xs) @ CHR '']'' # rest) = Some (xs, rest)"
    proof (rule parse_items_json)
      show "xs \<noteq> []" by (rule False)
      from PList.prems(2) show "size_list size xs < m" by (simp add: n)
      fix x k r
      assume "x \<in> set xs" "size x < k" "delim r"
      with PList.prems(1) show "parse_value F k (json_text x @ r) = Some (x, r)"
        by (intro PList.IH) (auto dest: floats_ok_item)
    qed
    from False obtain x xs' where xs: "xs = x # xs'"
      by (cases xs) auto
    with PList.prems(1) have "floats_ok F x"
      by (auto dest: floats_ok_item)
    then obtain c cs where c: "json_text x = c # cs" "c \<noteq> CHR '']''"
      using json_text_first by blast
    have "\<exists>tail. join '','' (map json_text xs) @ CHR '']'' # rest = c # tail"
      by (cases xs') (simp_all add: xs join_def c)
    then obtain tail where t: "join '','' (map json_text xs) @ CHR '']'' # rest = c # tail"
      by blast
    from i show ?thesis
      unfolding t using c(2) by (simp add: n t)
  qed
next
  case (PDict kvs)
  then obtain m where n: "n = Suc m" by (cases n) auto
  show ?case
  proof (cases "kvs = []")
    case True
    then show ?thesis
      by (simp add: n join_def)
  next
    case False
    have i: "parse_members F m (join '','' (map member_text kvs) @ CHR ''}'' # rest) =
        Some (kvs, rest)"
    proof (rule parse_members_json)
      show "kvs \<noteq> []" by (rule False)
      from PDict.prems(2) size_list_snd [of kvs]
      show "size_list (\<lambda>kv. size (snd kv)) kvs < m" by (simp add: n)
      fix kv k r
      assume a: "kv \<in> set kvs" "size (snd kv) < k" "delim r"
      then have "(fst kv, snd kv) \<in> set kvs"
        by simp
      with PDict.prems(1) have "floats_ok F (snd kv)"
        by (rule floats_ok_member)
      moreover have "snd kv \<in> Basic_BNFs.snds kv"
        by (cases kv) simp
      ultimately show "parse_value F k (json_text (snd kv) @ r) = Some (snd kv, r)"
        using a by (intro PDict.IH)
    qed
    from False obtain kv kvs' where kvs: "kvs = kv # kvs'"
      by (cases kvs) auto
    have "\<exists>tail. join '','' (map member_text kvs) @ CHR ''}'' # rest = CHR 0x22 # tail"
      by (cases kvs') (simp_all add: kvs join_def member_text_def json_str_def)
    then obtain tail where t: "join '','' (map member_text kvs) @ CHR ''}'' # rest = CHR 0x22 # tail"
      by blast
    from i show ?thesis
      unfolding json_text_members by (simp add: n t)
  qed
qed

lemma json_round_trip:
  "floats_ok F v \<Longrightarrow> parse_value F (Suc (size v)) (json_text v) = Some (v, [])"
  using parse_value_json [of F v "Suc (size v)" "[]"] by (simp add: delim_simps)

subsection \<open>No blank in the compact JSON text\<close>

lemma set_join: "set (join sep xs) \<subseteq> set sep \<union> (\<Union>x \<in> set xs. set x)"
  by (cases xs) (auto simp: join_def)

lemma num_char_visible: "num_char c \<Longrightarrow> visible c"
  by (auto simp: num_char_def visible_def code_def)

lemma str_int_visible: "\<forall>x \<in> set (str_int i). visible x"
  using str_int_token [of i] by (auto simp: list_all_iff num_char_visible)

lemma hex_digit_visible: "k < 16 \<Longrightarrow> visible (''0123456789abcdef'' ! k)"
  by (simp add: visible_def code_hex_digit del: nth_Cons_numeral)

lemma hex2_visible: "\<forall>x \<in> set (hex2 n). visible x"
  using hex_digit_visible [of "n div 16 mod 16"] hex_digit_visible [of "n mod 16"]
  by (simp add: hex2_def del: nth_Cons_numeral)

lemma code_space: "code c = 32 \<Longrightarrow> c = CHR '' ''"
proof -
  assume "code c = 32"
  then have "char_of (code c) = char_of (32 :: nat)"
    by simp
  moreover have "char_of (32 :: nat) = CHR '' ''"
    by code_simp
  ultimately show ?thesis
    by (simp add: char_of_code)
qed

lemma json_char_visible: "CHR '' '' \<noteq> c \<Longrightarrow> \<forall>x \<in> set (json_char c). visible x"
proof -
  assume c: "CHR '' '' \<noteq> c"
  have e: "visible (CHR 0x5C)" "visible (CHR 0x22)" "visible (CHR ''n'')" "visible (CHR ''r'')"
    "visible (CHR ''t'')" "visible (CHR ''b'')" "visible (CHR ''f'')" "visible (CHR ''u'')"
    "visible (CHR ''0'')"
    by (simp_all add: visible_def code_def)
  have p: "visible c" if "\<not> code c < 32"
  proof -
    from c have "code c \<noteq> 32"
      by (auto dest: code_space)
    with that show ?thesis
      by (simp add: visible_def)
  qed
  show ?thesis
    using e p hex2_visible [of "code c"] by (simp add: json_char_def)
qed

lemma json_str_visible: "CHR '' '' \<notin> set s \<Longrightarrow> \<forall>x \<in> set (json_str s). visible x"
proof -
  assume a: "CHR '' '' \<notin> set s"
  have "\<forall>x \<in> set (concat (map json_char t)). visible x" if "CHR '' '' \<notin> set t" for t
    using that by (induction t) (auto dest: json_char_visible)
  with a show ?thesis
    by (simp add: json_str_def visible_def code_def)
qed

lemma json_text_visible:
  "floats_ok F v \<Longrightarrow> \<forall>s \<in> set (texts v). CHR '' '' \<notin> set s \<Longrightarrow>
   \<forall>x \<in> set (json_text v). visible x"
proof (induction v)
  case PNone
  then show ?case by (simp add: visible_def code_def)
next
  case (PBool b)
  then show ?case by (simp add: visible_def code_def)
next
  case (PInt i)
  then show ?case by (simp add: str_int_visible)
next
  case (PFloat r t)
  then show ?case
    by (auto simp: floats_ok_def float_text_def list_all_iff num_char_visible)
next
  case (PStr s)
  then show ?case by (simp add: json_str_visible)
next
  case (PList xs)
  have b: "visible (CHR ''['')" "visible (CHR '']'')" "visible (CHR '','')"
    by (simp_all add: visible_def code_def)
  have "\<forall>c \<in> set (json_text x). visible c" if "x \<in> set xs" for x
    using that PList.prems by (intro PList.IH) (auto dest: floats_ok_item)
  then have "\<forall>c \<in> set (join '','' (map json_text xs)). visible c"
    using set_join [of "'',''" "map json_text xs"] b by fastforce
  with b show ?case by simp
next
  case (PDict kvs)
  have b: "visible (CHR ''{'')" "visible (CHR ''}'')" "visible (CHR '','')" "visible (CHR '':'')"
    by (simp_all add: visible_def code_def)
  have "\<forall>c \<in> set (member_text kv). visible c" if "kv \<in> set kvs" for kv
  proof -
    from that PDict.prems(2) have k: "CHR '' '' \<notin> set (fst kv)"
      and t: "\<forall>s \<in> set (texts (snd kv)). CHR '' '' \<notin> set s"
      by auto
    from that have "(fst kv, snd kv) \<in> set kvs"
      by simp
    with PDict.prems(1) have "floats_ok F (snd kv)"
      by (rule floats_ok_member)
    moreover have "snd kv \<in> Basic_BNFs.snds kv"
      by (cases kv) simp
    ultimately have "\<forall>c \<in> set (json_text (snd kv)). visible c"
      using that t by (intro PDict.IH)
    with k b show ?thesis
      by (auto simp: member_text_def dest: json_str_visible)
  qed
  then have "\<forall>c \<in> set (join '','' (map member_text kvs)). visible c"
    using set_join [of "'',''" "map member_text kvs"] b by fastforce
  with b show ?case
    unfolding json_text_members by simp
qed

subsection \<open>Label sets and their normal form\<close>

lemma is_str_the_str: "is_str v \<Longrightarrow> PStr (the_str v) = v"
  by (cases v) (simp_all add: is_str_def the_str_def)

lemma map_PStr_the_str: "list_all is_str xs \<Longrightarrow> map PStr (map the_str xs) = xs"
  by (induction xs) (simp_all add: is_str_the_str)

lemma py_sorted_texts:
  "list_all is_str xs \<Longrightarrow> py_sorted xs = Inr (map PStr (sort (map the_str xs)))"
proof -
  assume t: "list_all is_str xs"
  show ?thesis
  proof (cases "length xs < 2")
    case True
    then have "xs = [] \<or> (\<exists>x. xs = [x])"
      by (cases xs) (auto simp: less_Suc_eq_0_disj numeral_2_eq_2)
    with t show ?thesis
      by (auto simp: py_sorted_def is_str_the_str)
  next
    case False
    with t show ?thesis
      by (simp add: py_sorted_def)
  qed
qed

lemma the_str_inj: "is_str x \<Longrightarrow> is_str y \<Longrightarrow> the_str x = the_str y \<Longrightarrow> x = y"
  by (metis is_str_the_str)

lemma hkey_text: "is_str x \<Longrightarrow> hkey x = x"
  by (cases x) (simp_all add: is_str_def)

lemma distinct_texts:
  "list_all is_str xs \<Longrightarrow> distinct (map hkey xs) \<Longrightarrow> distinct (map the_str xs)"
proof (induction xs)
  case Nil
  then show ?case by simp
next
  case (Cons x xs)
  then have "x \<notin> set xs"
    by (auto simp: hkey_text list_all_iff)
  with Cons show ?case
    by (auto simp: list_all_iff dest: the_str_inj)
qed

lemma sort_texts:
  "list_all is_str xs \<Longrightarrow> distinct (map hkey xs) \<Longrightarrow>
   sort (map the_str xs) = sorted_list_of_set (the_str ` set xs)"
proof -
  assume "list_all is_str xs" "distinct (map hkey xs)"
  then have "distinct (map the_str xs)"
    by (rule distinct_texts)
  then have "sort (map the_str xs) = sort (remdups (map the_str xs))"
    by (simp add: distinct_remdups_id)
  also have "\<dots> = sorted_list_of_set (set (map the_str xs))"
    by (simp only: sorted_list_of_set_sort_remdups)
  finally show ?thesis by simp
qed

lemma hd_sorted_list_of_set:
  "finite S \<Longrightarrow>
   (case sorted_list_of_set S of [] \<Rightarrow> PStr '''' | l # _ \<Rightarrow> PStr l) =
     PStr (if S = {} then '''' else Min S)"
  by (cases "S = {}") (simp_all add: sorted_list_of_set_nonempty)

lemma normalize_node_texts:
  "list_all is_str (labels n) \<Longrightarrow> distinct (map hkey (labels n)) \<Longrightarrow>
   normalize_node (q, n) =
     Inr (q, \<lparr>norm_id = q,
               label = PStr (if the_str ` set (labels n) = {} then ''''
                             else Min (the_str ` set (labels n))),
               norm_labels = map PStr (sorted_list_of_set (the_str ` set (labels n)))\<rparr>)"
proof -
  assume t: "list_all is_str (labels n)" and d: "distinct (map hkey (labels n))"
  let ?S = "the_str ` set (labels n)"
  have s: "py_sorted (labels n) = Inr (map PStr (sorted_list_of_set ?S))"
    using t d by (simp add: py_sorted_texts sort_texts)
  have "(case map PStr (sorted_list_of_set ?S) of [] \<Rightarrow> PStr '''' | l # _ \<Rightarrow> l) =
        (case sorted_list_of_set ?S of [] \<Rightarrow> PStr '''' | l # _ \<Rightarrow> PStr l)"
    by (cases "sorted_list_of_set ?S") simp_all
  also have "\<dots> = PStr (if ?S = {} then '''' else Min ?S)"
    by (rule hd_sorted_list_of_set) simp
  finally show ?thesis
    by (simp add: normalize_node_def s)
qed

lemma normalize_nodes_texts:
  "\<forall>qn \<in> set ns. list_all is_str (labels (snd qn)) \<Longrightarrow>
   \<forall>qn \<in> set ns. distinct (map hkey (labels (snd qn))) \<Longrightarrow>
   normalize_nodes ns = Inr (map canonical_node ns)"
proof (induction ns)
  case Nil
  then show ?case by simp
next
  case (Cons qn ns)
  obtain q n where qn: "qn = (q, n)" by (cases qn)
  from Cons.prems have "normalize_node (q, n) = Inr (canonical_node (q, n))"
    unfolding canonical_node_def qn by (simp add: normalize_node_texts)
  with Cons show ?case
    by (simp add: qn)
qed

lemma set_add_distinct: "distinct (map hkey ls) \<Longrightarrow> distinct (map hkey (set_add ls l))"
  by (auto simp: set_add_def py_eq_def)

lemma set_add_texts: "is_str l \<Longrightarrow> list_all is_str ls \<Longrightarrow> list_all is_str (set_add ls l)"
  by (simp add: set_add_def)

lemma add_label_pred:
  "list_all (\<lambda>qn. P (labels (snd qn))) ns \<Longrightarrow> (\<And>ls. P ls \<Longrightarrow> P (set_add ls l)) \<Longrightarrow>
   list_all (\<lambda>qn. P (labels (snd qn))) (add_label q l ns)"
  by (induction ns) auto

lemma ensure_node_pred:
  assumes "list_all (\<lambda>qn. P (labels (snd qn))) (nodes b)" and "P []"
    and "\<And>ls. P ls \<Longrightarrow> P (set_add ls l)"
  shows "list_all (\<lambda>qn. P (labels (snd qn))) (nodes (fst (ensure_node b q l)))"
proof -
  let ?b1 = "case map_of (nodes b) q of
               None \<Rightarrow> b\<lparr>nodes := nodes b @ [(q, \<lparr>node_id = q, labels = []\<rparr>)]\<rparr>
             | Some n \<Rightarrow> b"
  have 1: "list_all (\<lambda>qn. P (labels (snd qn))) (nodes ?b1)"
    using assms(1,2) by (simp split: option.splits)
  show ?thesis
  proof (cases "truthy l \<and> hashable l")
    case True
    from 1 assms(3) have "list_all (\<lambda>qn. P (labels (snd qn))) (add_label q l (nodes ?b1))"
      by (rule add_label_pred)
    with True show ?thesis
      by (simp add: ensure_node_def Let_def)
  next
    case False
    with 1 show ?thesis
      by (auto simp: ensure_node_def Let_def)
  qed
qed

lemma ensure_node_labels_distinct:
  "labels_distinct b \<Longrightarrow> labels_distinct (fst (ensure_node b q l))"
  unfolding labels_distinct_def list_all_iff [symmetric]
  by (rule ensure_node_pred) (simp_all add: set_add_distinct)

lemma add_edge_labels_distinct:
  "labels_distinct (fst (add_edge b s d p l)) = labels_distinct b"
  by (simp add: labels_distinct_def add_edge_nodes)

lemma do_call_labels_distinct: "labels_distinct b \<Longrightarrow> labels_distinct (do_call b c)"
  by (cases c)
     (simp_all add: do_call_def ensure_node_labels_distinct add_edge_labels_distinct)

lemma run_calls_labels_distinct: "labels_distinct b \<Longrightarrow> labels_distinct (run_calls b cs)"
  by (induction cs arbitrary: b) (simp_all add: run_calls_def do_call_labels_distinct)

lemma ensure_node_text_labels:
  "is_str l \<Longrightarrow> text_labels b \<Longrightarrow> text_labels (fst (ensure_node b q l))"
  unfolding text_labels_def list_all_iff [symmetric, of _ "\<lambda>qn. list_all is_str (labels (snd qn))"]
  by (rule ensure_node_pred) (simp_all add: set_add_texts)

lemma add_edge_text_labels: "text_labels (fst (add_edge b s d p l)) = text_labels b"
  by (simp add: text_labels_def add_edge_nodes)

lemma do_call_text_labels: "text_call c \<Longrightarrow> text_labels b \<Longrightarrow> text_labels (do_call b c)"
  by (cases c)
     (simp_all add: do_call_def text_call_def ensure_node_text_labels add_edge_text_labels)

lemma run_calls_text_labels:
  "\<forall>c \<in> set cs. text_call c \<Longrightarrow> text_labels b \<Longrightarrow> text_labels (run_calls b cs)"
  by (induction cs arbitrary: b) (simp_all add: run_calls_def do_call_text_labels)

lemma dget_text: "\<forall>kc \<in> set r. is_str (get_value (snd kc)) \<Longrightarrow> is_str (get_value (dget r k))"
proof (cases "map_of r k")
  case None
  then show ?thesis
    by (simp add: dget_def get_value_def is_str_def)
next
  case (Some v)
  assume a: "\<forall>kc \<in> set r. is_str (get_value (snd kc))"
  from Some have "(k, v) \<in> set r"
    by (rule map_of_SomeD)
  with a have "is_str (get_value (snd (k, v)))"
    by blast
  with Some show ?thesis
    by (simp add: dget_def)
qed

lemma py_or_text: "is_str a \<Longrightarrow> is_str b \<Longrightarrow> is_str (py_or a b)"
  by (simp add: py_or_def)

lemma text_row_calls: "text_row row \<Longrightarrow> \<forall>c \<in> set (row_calls row). text_call c"
  by (auto simp: text_row_def row_calls_def object_calls_def text_call_def
        subj_label_of_def obj_label_of_def py_or_text dget_text
      split: pyval.splits sum.splits option.splits if_splits)

lemma text_rows_text_labels:
  "\<forall>row \<in> set rows. text_row row \<Longrightarrow> text_labels (ingest init rows)"
  unfolding ingest_calls
  by (rule run_calls_text_labels) (auto simp: text_labels_def init_def dest: text_row_calls)

lemma ingest_files_labels_distinct: "labels_distinct (ingest_files init files)"
  unfolding ingest_files_rows ingest_calls
  by (rule run_calls_labels_distinct) (simp add: labels_distinct_def init_def)

lemma ingest_files_nodes_distinct: "distinct (map fst (nodes (ingest_files init files)))"
  unfolding ingest_files_rows ingest_calls
  by (rule run_calls_distinct) (simp add: init_def)

lemma build_texts:
  "text_labels (ingest_files init files) \<Longrightarrow>
   build files = Inr (ingest_files init files, map canonical_node (nodes (ingest_files init files)))"
proof -
  let ?b = "ingest_files init files"
  assume "text_labels ?b"
  then have "normalize_nodes (nodes ?b) = Inr (map canonical_node (nodes ?b))"
    using ingest_files_labels_distinct [of files]
    by (intro normalize_nodes_texts) (simp_all add: text_labels_def labels_distinct_def)
  then show ?thesis
    by (simp add: build_def Let_def)
qed

lemma labels_of_member:
  "distinct (map fst (nodes b)) \<Longrightarrow> (q, n) \<in> set (nodes b) \<Longrightarrow> labels_of b q = labels n"
  by (simp add: labels_of_def)

subsection \<open>What a sequence of calls leaves, whatever its order\<close>





















subsection \<open>Edges join stored nodes\<close>

lemma endpoints_ensure_node:
  "endpoints_present b \<Longrightarrow> endpoints_present (fst (ensure_node b q l))"
  by (simp add: endpoints_present_def ensure_node_ids ensure_node_edges)

lemma endpoints_add_edge:
  "endpoints_present b \<Longrightarrow> s \<in> node_ids b \<Longrightarrow> d \<in> node_ids b \<Longrightarrow>
   endpoints_present (fst (add_edge b s d p l))"
  by (simp add: endpoints_present_def add_edge_edges node_ids_def add_edge_nodes)

lemma endpoints_process_row:
  "endpoints_present b \<Longrightarrow> endpoints_present (fst (process_row b row))"
  by (simp add: process_row_calls row_calls_def object_calls_def run_calls_def do_call_def
        endpoints_ensure_node endpoints_add_edge ensure_node_ids
      split: pyval.splits sum.splits option.splits)

lemma endpoints_ingest:
  "endpoints_present b \<Longrightarrow> endpoints_present (ingest b rows)"
  by (induction rows arbitrary: b) (simp_all add: ingest_def endpoints_process_row)

section \<open>The utilities on concrete cells and documents\<close>

text \<open>
  Claim C6: for every input cell, \<^verbatim>\<open>get_value\<close> returns a text, in particular for a
  wrapped cell whose \<^verbatim>\<open>"value"\<close> field holds any value. The code returns the field of a
  wrapped cell as it is: for the cell \<^verbatim>\<open>{"value": 5}\<close> the result is the integer 5, not a
  text, and \<^verbatim>\<open>extract_qid\<close>, which hands it to \<^verbatim>\<open>search\<close>, raises TypeError.
\<close>

theorem get_value_wrapped_int_not_text:
  "get_value (PDict [(''value'', PInt 5)]) = PInt 5 \<and>
   extract_qid (PDict [(''value'', PInt 5)]) = Inl TypeError"
  by (simp add: get_value_def extract_qid_def)

text \<open>
  Claim C7: every parsed document that is neither the results wrapper nor a list is
  returned as a one-row list. The code calls \<^verbatim>\<open>.get("bindings")\<close> on whatever the
  \<^verbatim>\<open>"results"\<close> entry holds: for the document \<^verbatim>\<open>{"results": null}\<close> it raises
  AttributeError, and the file contributes no row.
\<close>

theorem load_json_any_results_not_dict:
  "load_json_any (PDict [(''results'', PNone)]) = Inl AttributeError \<and>
   file_rows (Inr (PDict [(''results'', PNone)])) = []"
  by (simp add: load_json_any_def file_rows_def)

section \<open>Invariants of the builder\<close>

text \<open>
  Claim C10: in every builder state reached by any sequence of \<^verbatim>\<open>ensure_node\<close> and
  \<^verbatim>\<open>add_edge\<close> calls, the stored edges have pairwise distinct dedup keys, \<open>edge_seen\<close> is
  exactly the set of those keys (so there are as many edges as seen keys), and the
  counter of each (property id or empty, label or empty) pair is the number of stored
  edges that carry the pair.
\<close>

theorem dedup_structures_consistent:
  "distinct (map edge_key (edges (run_calls init cs))) \<and>
   edge_seen (run_calls init cs) = edge_key ` set (edges (run_calls init cs)) \<and>
   card (edge_seen (run_calls init cs)) = length (edges (run_calls init cs)) \<and>
   (\<forall>pid l. prop_counts (run_calls init cs) (pid, l) =
            length (filter (\<lambda>e. edge_pair e = (pid, l)) (edges (run_calls init cs))))"
proof -
  let ?b = "run_calls init cs"
  have c: "dedup_consistent ?b"
    by (rule run_calls_consistent) (rule init_consistent)
  then have d: "distinct (map edge_key (edges ?b))"
    and s: "edge_seen ?b = edge_key ` set (edges ?b)"
    and p: "\<forall>k. prop_counts ?b k = length (filter (\<lambda>e. edge_pair e = k) (edges ?b))"
    by (simp_all add: dedup_consistent_def edge_keys_def)
  have "card (edge_seen ?b) = card (set (map edge_key (edges ?b)))"
    by (simp add: s)
  also have "\<dots> = length (edges ?b)"
    using d by (simp add: distinct_card del: set_map)
  finally show ?thesis
    using d s p by simp
qed

text \<open>
  Claim C4: in every builder state reached by processing any sequence of rows with
  \<^verbatim>\<open>process_row\<close>, the source and the target of every stored edge are keys of the node
  map.
\<close>

theorem edge_endpoints_are_nodes:
  "\<forall>e \<in> set (edges (ingest init rows)).
     source e \<in> node_ids (ingest init rows) \<and> target e \<in> node_ids (ingest init rows)"
proof -
  have "endpoints_present init"
    by (simp add: endpoints_present_def init_def)
  then have "endpoints_present (ingest init rows)"
    by (rule endpoints_ingest)
  then show ?thesis
    by (simp add: endpoints_present_def)
qed

lemma ingest_earth_row:
  "nodes (ingest init [earth_row]) = nodes earth_builder"
  "edges (ingest init [earth_row]) = edges earth_builder"
  "edge_seen (ingest init [earth_row]) = edge_seen earth_builder"
  by code_simp+

theorem edge_endpoints_are_nodes_witness:
  "edges (ingest init [earth_row]) =
     [\<lparr>source = ''Q1'', target = ''Q2'', property_id = Some ''P31'',
        property_label = PStr ''instance of''\<rparr>] \<and>
   ''Q1'' \<in> node_ids (ingest init [earth_row]) \<and>
   ''Q2'' \<in> node_ids (ingest init [earth_row])"
  using edge_endpoints_are_nodes [of "[earth_row]"]
  by (simp add: ingest_earth_row earth_builder_def)

section \<open>Deduplication\<close>

text \<open>
  Claim C1: a call of \<^verbatim>\<open>add_edge\<close> whose key is already in \<open>edge_seen\<close> leaves the
  builder (edges, \<open>edge_seen\<close>, \<open>prop_counts\<close>) unchanged; a call of \<^verbatim>\<open>ensure_node\<close>
  with an existing id and a label already recorded leaves the node map unchanged;
  processing once more a row that any of the files already held leaves the whole
  builder unchanged; and after any files there is one node per entity id and one edge
  per dedup key (source, target, property id or empty, label or empty).
\<close>

theorem dedup_idempotence:
  "((src, dst, pid_or_empty pid, hkey (label_or_empty prop_label)) \<in> edge_seen b \<longrightarrow>
      fst (add_edge b src dst pid prop_label) = b) \<and>
   (map_of (nodes b) qid = Some n \<and> (\<exists>x \<in> set (labels n). py_eq x lbl) \<longrightarrow>
      fst (ensure_node b qid lbl) = b) \<and>
   (row \<in> set (concat (map file_rows files)) \<longrightarrow>
      fst (process_row (ingest_files init files) row) = ingest_files init files) \<and>
   distinct (map fst (nodes (ingest_files init files))) \<and>
   distinct (map edge_key (edges (ingest_files init files)))"
proof -
  have a: "fst (add_edge b src dst pid prop_label) = b"
    if "(src, dst, pid_or_empty pid, hkey (label_or_empty prop_label)) \<in> edge_seen b"
    using that by (simp add: add_edge_absorbed)
  have e: "fst (ensure_node b qid lbl) = b"
    if "map_of (nodes b) qid = Some n \<and> (\<exists>x \<in> set (labels n). py_eq x lbl)"
  proof (rule ensure_node_absorbed)
    from that show "recorded b qid lbl"
      by (auto simp: recorded_def node_ids_def labels_of_def dest: map_of_Some_mem)
  qed
  have r: "fst (process_row (ingest_files init files) row) = ingest_files init files"
    if "row \<in> set (concat (map file_rows files))"
    unfolding ingest_files_rows using that by (rule process_row_repeat)
  have n: "distinct (map fst (nodes (ingest_files init files)))"
    unfolding ingest_files_rows ingest_calls
    by (rule run_calls_distinct) (simp add: init_def)
  have "dedup_consistent (ingest_files init files)"
    unfolding ingest_files_rows ingest_calls
    by (rule run_calls_consistent) (rule init_consistent)
  then have k: "distinct (map edge_key (edges (ingest_files init files)))"
    by (simp add: dedup_consistent_def)
  from a e r n k show ?thesis by blast
qed

lemma ingest_two_files: 
  "nodes (ingest_files init two_files) = nodes earth_builder"
  "edges (ingest_files init two_files) = edges earth_builder"
  "edge_seen (ingest_files init two_files) = edge_seen earth_builder"
  by code_simp+

theorem dedup_idempotence_witness:
  "(''Q1'', ''Q2'', ''P31'', PStr ''instance of'') \<in> edge_seen earth_builder \<and>
   fst (add_edge earth_builder ''Q1'' ''Q2'' (Some ''P31'') (PStr ''instance of'')) = earth_builder \<and>
   fst (ensure_node earth_builder ''Q2'' (PStr ''Planet'')) = earth_builder \<and>
   earth_row \<in> set (concat (map file_rows two_files)) \<and>
   fst (process_row (ingest_files init two_files) earth_row) = ingest_files init two_files \<and>
   map fst (nodes (ingest_files init two_files)) = [''Q1'', ''Q2''] \<and>
   length (edges (ingest_files init two_files)) = 1"
proof -
  have h1: "(''Q1'', ''Q2'', pid_or_empty (Some ''P31''), hkey (label_or_empty (PStr ''instance of'')))
              \<in> edge_seen earth_builder"
    by (simp add: earth_builder_def pid_or_empty_def label_or_empty_def py_or_def)
  have h2: "map_of (nodes earth_builder) ''Q2'' = Some \<lparr>node_id = ''Q2'', labels = [PStr ''Planet'']\<rparr> \<and>
            (\<exists>x \<in> set (labels \<lparr>node_id = ''Q2'', labels = [PStr ''Planet'']\<rparr>). py_eq x (PStr ''Planet''))"
    by (simp add: earth_builder_def py_eq_def)
  have h3: "earth_row \<in> set (concat (map file_rows two_files))"
    by (simp add: two_files_def file_rows_def load_json_any_def)
  from h1 h2 h3
    dedup_idempotence [of "''Q1''" "''Q2''" "Some ''P31''" "PStr ''instance of''" earth_builder
      "''Q2''" "\<lparr>node_id = ''Q2'', labels = [PStr ''Planet'']\<rparr>" "PStr ''Planet''" earth_row two_files]
  show ?thesis
    by (simp add: ingest_two_files earth_builder_def pid_or_empty_def label_or_empty_def py_or_def)
qed

section \<open>Rows\<close>

text \<open>
  Claim C2: the skip policy of \<^verbatim>\<open>process_row\<close>. If no subject id resolves from the
  columns \<^verbatim>\<open>item\<close>, \<^verbatim>\<open>item1\<close>, \<^verbatim>\<open>subject\<close> (tried in this order by \<open>subj_of\<close>), the
  builder is unchanged. If a subject id resolves and no object id resolves from
  \<^verbatim>\<open>value\<close>, \<^verbatim>\<open>item2\<close>, \<^verbatim>\<open>o\<close>, the row does what \<^verbatim>\<open>ensure_node\<close> does for the subject
  and nothing else: the subject is a node, its label is recorded (a non-empty text
  always is), the other nodes keep their labels, and no edge is added.
\<close>

theorem skip_policy:
  "((\<forall>s. subj_of r \<noteq> Inr (Some s)) \<longrightarrow> fst (process_row b (PDict r)) = b) \<and>
   (subj_of r' = Inr (Some subj) \<and> (\<forall>obj. obj_of r' \<noteq> Inr (Some obj)) \<longrightarrow>
      fst (process_row b (PDict r')) = fst (ensure_node b subj (subj_label_of r')) \<and>
      node_ids (fst (process_row b (PDict r'))) = insert subj (node_ids b) \<and>
      labels_of (fst (process_row b (PDict r'))) subj =
        (if truthy (subj_label_of r') \<and> hashable (subj_label_of r')
         then set_add (labels_of b subj) (subj_label_of r') else labels_of b subj) \<and>
      (\<forall>t. subj_label_of r' = PStr t \<and> t \<noteq> [] \<longrightarrow>
           PStr t \<in> set (labels_of (fst (process_row b (PDict r'))) subj)) \<and>
      (\<forall>q. q \<noteq> subj \<longrightarrow> labels_of (fst (process_row b (PDict r'))) q = labels_of b q) \<and>
      edges (fst (process_row b (PDict r'))) = edges b \<and>
      edge_seen (fst (process_row b (PDict r'))) = edge_seen b \<and>
      prop_counts (fst (process_row b (PDict r'))) = prop_counts b)"
proof (intro conjI impI)
  assume "\<forall>s. subj_of r \<noteq> Inr (Some s)"
  then show "fst (process_row b (PDict r)) = b"
    by (simp add: process_row_calls row_calls_no_subject run_calls_def)
next
  assume a: "subj_of r' = Inr (Some subj) \<and> (\<forall>obj. obj_of r' \<noteq> Inr (Some obj))"
  let ?b = "fst (process_row b (PDict r'))"
  from a show e: "?b = fst (ensure_node b subj (subj_label_of r'))"
    by (simp add: process_row_calls row_calls_no_object run_calls_def do_call_def)
  show "node_ids ?b = insert subj (node_ids b)"
    by (simp add: e ensure_node_ids)
  show l: "labels_of ?b subj =
        (if truthy (subj_label_of r') \<and> hashable (subj_label_of r')
         then set_add (labels_of b subj) (subj_label_of r') else labels_of b subj)"
    by (simp add: e ensure_node_labels)
  show "\<forall>t. subj_label_of r' = PStr t \<and> t \<noteq> [] \<longrightarrow> PStr t \<in> set (labels_of ?b subj)"
    using set_add_has [of "labels_of b subj" "subj_label_of r'"]
    by (auto simp: l py_eq_def dest!: hkey_is_text)
  show "\<forall>q. q \<noteq> subj \<longrightarrow> labels_of ?b q = labels_of b q"
    by (simp add: e ensure_node_labels)
  show "edges ?b = edges b" "edge_seen ?b = edge_seen b" "prop_counts ?b = prop_counts b"
    by (simp_all add: e ensure_node_edges)
qed


lemma example_rows_resolve:
  "subj_of no_subject_row = Inr None"
  "subj_of literal_row = Inr (Some ''Q1'')"
  "obj_of literal_row = Inr None"
  "subj_label_of literal_row = PStr ''Earth''"
  by code_simp+

theorem skip_policy_witness:
  "subj_of no_subject_row = Inr None \<and>
   fst (process_row init (PDict no_subject_row)) = init \<and>
   subj_of literal_row = Inr (Some ''Q1'') \<and>
   obj_of literal_row = Inr None \<and>
   node_ids (fst (process_row init (PDict literal_row))) = {''Q1''} \<and>
   labels_of (fst (process_row init (PDict literal_row))) ''Q1'' = [PStr ''Earth''] \<and>
   edges (fst (process_row init (PDict literal_row))) = []"
proof -
  have h1: "\<forall>s. subj_of no_subject_row \<noteq> Inr (Some s)"
    by (simp add: example_rows_resolve)
  have h2: "subj_of literal_row = Inr (Some ''Q1'') \<and>
            (\<forall>obj. obj_of literal_row \<noteq> Inr (Some obj))"
    by (simp add: example_rows_resolve)
  note t = skip_policy [of no_subject_row init literal_row "''Q1''"]
  let ?b = "fst (process_row init (PDict literal_row))"
  from t h1 have a: "fst (process_row init (PDict no_subject_row)) = init"
    by blast
  from t h2 have n: "node_ids ?b = insert ''Q1'' (node_ids init)"
    by blast
  from t h2 have l: "labels_of ?b ''Q1'' =
      (if truthy (subj_label_of literal_row) \<and> hashable (subj_label_of literal_row)
       then set_add (labels_of init ''Q1'') (subj_label_of literal_row)
       else labels_of init ''Q1'')"
    by blast
  from t h2 have e: "edges ?b = edges init"
    by blast
  have i: "node_ids init = {}" "labels_of init ''Q1'' = []" "edges init = []"
    by (simp_all add: init_def node_ids_def labels_of_def)
  show ?thesis
    by (simp add: a n l e i example_rows_resolve set_add_def)
qed

text \<open>
  Claim C8: when a property id resolves (from \<^verbatim>\<open>prop\<close>, then \<^verbatim>\<open>p\<close>) and both label
  columns \<^verbatim>\<open>propLabel\<close> and \<^verbatim>\<open>pl_\<close> give the empty text (or any other falsy value), an
  edge that the row adds has the property id as its label; and whenever a property id
  resolves, the label of an edge that the row adds is not empty.
\<close>

theorem property_label_fallback:
  "(pid_of r = Inr (Some pid) \<and>
    \<not> truthy (get_value (dget r ''propLabel'')) \<and>
    \<not> truthy (get_value (dget r ''pl_'')) \<longrightarrow>
      pid \<noteq> [] \<and>
      (edges (fst (process_row b (PDict r))) = edges b \<or>
       (\<exists>s ob. edges (fst (process_row b (PDict r))) =
                 edges b @ [\<lparr>source = s, target = ob, property_id = Some pid,
                              property_label = PStr pid\<rparr>]))) \<and>
   (pid_of r' = Inr (Some pid') \<longrightarrow>
      (edges (fst (process_row b (PDict r'))) = edges b \<or>
       (\<exists>s ob l. edges (fst (process_row b (PDict r'))) =
                   edges b @ [\<lparr>source = s, target = ob, property_id = Some pid',
                                property_label = l\<rparr>] \<and>
                 truthy l \<and> l \<noteq> PStr '''' \<and> l \<noteq> PNone)))"
proof (intro conjI impI)
  assume a: "pid_of r = Inr (Some pid) \<and>
    \<not> truthy (get_value (dget r ''propLabel'')) \<and>
    \<not> truthy (get_value (dget r ''pl_''))"
  then show "pid \<noteq> []"
    by (auto dest: pid_of_nonempty)
  from a have "prop_label_of r (Some pid) = PStr pid"
    by (simp add: prop_label_falls_back)
  with a process_row_edges [of b r]
  show "edges (fst (process_row b (PDict r))) = edges b \<or>
       (\<exists>s ob. edges (fst (process_row b (PDict r))) =
                 edges b @ [\<lparr>source = s, target = ob, property_id = Some pid,
                              property_label = PStr pid\<rparr>])"
    by auto
next
  assume a: "pid_of r' = Inr (Some pid')"
  then have "truthy (prop_label_of r' (Some pid'))"
    by (auto intro: prop_label_truthy dest: pid_of_nonempty)
  with a process_row_edges [of b r']
  show "edges (fst (process_row b (PDict r'))) = edges b \<or>
       (\<exists>s ob l. edges (fst (process_row b (PDict r'))) =
                   edges b @ [\<lparr>source = s, target = ob, property_id = Some pid',
                                property_label = l\<rparr>] \<and>
                 truthy l \<and> l \<noteq> PStr '''' \<and> l \<noteq> PNone)"
    by auto
qed

lemma unlabelled_prop_row_resolves:
  "pid_of unlabelled_prop_row = Inr (Some ''P31'')"
  "get_value (dget unlabelled_prop_row ''propLabel'') = PStr ''''"
  "get_value (dget unlabelled_prop_row ''pl_'') = PStr ''''"
  "edges (fst (process_row init (PDict unlabelled_prop_row))) \<noteq> edges init"
  by code_simp+

theorem property_label_fallback_witness:
  "pid_of unlabelled_prop_row = Inr (Some ''P31'') \<and>
   get_value (dget unlabelled_prop_row ''propLabel'') = PStr '''' \<and>
   get_value (dget unlabelled_prop_row ''pl_'') = PStr '''' \<and>
   (\<exists>s ob. edges (fst (process_row init (PDict unlabelled_prop_row))) =
             edges init @ [\<lparr>source = s, target = ob, property_id = Some ''P31'',
                             property_label = PStr ''P31''\<rparr>])"
  using property_label_fallback [of unlabelled_prop_row "''P31''" init unlabelled_prop_row "''P31''"]
  by (simp add: unlabelled_prop_row_resolves)

section \<open>The sanitizer\<close>

text \<open>
  Claim C9: \<^verbatim>\<open>sanitize_scalar\<close> maps \<^verbatim>\<open>None\<close> to the empty text, returns a text, an
  integer, a float or a boolean unchanged, and maps a list or a dict to the text the
  JSON encoder gives, or to \<^verbatim>\<open>str(v)\<close> when the encoder raises. With
  \<^verbatim>\<open>json.dumps(v, ensure_ascii=False, separators=(",", ":"))\<close> that text is the compact
  JSON text of the value: the strict reader, which allows no white space between
  tokens, reads the value back from it; it holds no blank and no control character
  unless a string or key of the value holds a blank; and a character that is no quote,
  backslash or control character, non-ASCII included, is written as it is.
\<close>

theorem sanitize_scalar_by_type:
  "sanitize_scalar dumps PNone = PStr '''' \<and>
   sanitize_scalar dumps (PStr s) = PStr s \<and>
   sanitize_scalar dumps (PInt i) = PInt i \<and>
   sanitize_scalar dumps (PFloat r t) = PFloat r t \<and>
   sanitize_scalar dumps (PBool b) = PBool b \<and>
   ((v = PList xs \<or> v = PDict kvs) \<and> dumps v = Inr dumped \<longrightarrow>
      sanitize_scalar dumps v = PStr dumped) \<and>
   ((v = PList xs \<or> v = PDict kvs) \<and> dumps v = Inl e \<longrightarrow>
      sanitize_scalar dumps v = PStr (py_str v)) \<and>
   ((w = PList ys \<or> w = PDict kws) \<and> floats_ok float_of w \<longrightarrow>
      (\<exists>out. sanitize_scalar json_dumps w = PStr out \<and>
             parse_value float_of (Suc (size w)) out = Some (w, []) \<and>
             ((\<forall>s \<in> set (texts w). CHR '' '' \<notin> set s) \<longrightarrow> (\<forall>c \<in> set out. visible c)))) \<and>
   ((\<forall>c \<in> set s. c \<noteq> CHR 0x22 \<and> c \<noteq> CHR 0x5C \<and> 32 \<le> code c) \<longrightarrow>
      sanitize_scalar json_dumps (PList [PStr s]) = PStr (''['' @ [CHR 0x22] @ s @ [CHR 0x22] @ '']''))"
proof -
  have 1: "sanitize_scalar json_dumps w = PStr (json_text w)" if "w = PList ys \<or> w = PDict kws"
    using that by (auto simp: sanitize_scalar_def json_dumps_def)
  have 2: "\<exists>out. sanitize_scalar json_dumps w = PStr out \<and>
             parse_value float_of (Suc (size w)) out = Some (w, []) \<and>
             ((\<forall>s \<in> set (texts w). CHR '' '' \<notin> set s) \<longrightarrow> (\<forall>c \<in> set out. visible c))"
    if "(w = PList ys \<or> w = PDict kws) \<and> floats_ok float_of w"
    using that 1 json_round_trip [of float_of w] json_text_visible [of float_of w]
    by blast
  have 3: "sanitize_scalar json_dumps (PList [PStr s]) =
      PStr (''['' @ [CHR 0x22] @ s @ [CHR 0x22] @ '']'')"
    if "\<forall>c \<in> set s. c \<noteq> CHR 0x22 \<and> c \<noteq> CHR 0x5C \<and> 32 \<le> code c"
    using json_str_plain [OF that]
    by (simp add: sanitize_scalar_def json_dumps_def join_def)
  have 4: "sanitize_scalar dumps v = PStr dumped"
    if "(v = PList xs \<or> v = PDict kvs) \<and> dumps v = Inr dumped"
    using that by (auto simp: sanitize_scalar_def)
  have 5: "sanitize_scalar dumps v = PStr (py_str v)"
    if "(v = PList xs \<or> v = PDict kvs) \<and> dumps v = Inl e"
    using that by (auto simp: sanitize_scalar_def)
  have 6: "sanitize_scalar dumps PNone = PStr ''''" "sanitize_scalar dumps (PStr s) = PStr s"
    "sanitize_scalar dumps (PInt i) = PInt i" "sanitize_scalar dumps (PFloat r t) = PFloat r t"
    "sanitize_scalar dumps (PBool b) = PBool b"
    by (simp_all add: sanitize_scalar_def)
  from 2 3 4 5 6 show ?thesis
    by blast
qed

lemma nested_attr_texts:
  "json_dumps nested_attr = Inr (''[-12,1.5,{'' @ [CHR 0x22] @ ''k'' @ [CHR 0x22] @ '':null},true]'')"
  "py_str nested_attr = ''[-12, 1.5, {'' @ [CHR 0x27] @ ''k'' @ [CHR 0x27] @ '': None}, True]''"
  "floats_ok float_of_1_5 nested_attr"
  "texts nested_attr = [''k'']"
  by code_simp+

theorem sanitize_scalar_by_type_witness:
  "floats_ok float_of_1_5 nested_attr \<and>
   json_dumps nested_attr =
     Inr (''[-12,1.5,{'' @ [CHR 0x22] @ ''k'' @ [CHR 0x22] @ '':null},true]'') \<and>
   sanitize_scalar json_dumps nested_attr =
     PStr (''[-12,1.5,{'' @ [CHR 0x22] @ ''k'' @ [CHR 0x22] @ '':null},true]'') \<and>
   parse_value float_of_1_5 (Suc (size nested_attr))
     (''[-12,1.5,{'' @ [CHR 0x22] @ ''k'' @ [CHR 0x22] @ '':null},true]'') =
     Some (nested_attr, []) \<and>
   list_all visible (''[-12,1.5,{'' @ [CHR 0x22] @ ''k'' @ [CHR 0x22] @ '':null},true]'') \<and>
   sanitize_scalar (\<lambda>v. Inl TypeError) nested_attr =
     PStr (''[-12, 1.5, {'' @ [CHR 0x27] @ ''k'' @ [CHR 0x27] @ '': None}, True]'') \<and>
   sanitize_scalar json_dumps (PList [PStr [CHR ''J'', CHR ''o'', CHR ''s'', CHR 0xE9]]) =
     PStr [CHR ''['', CHR 0x22, CHR ''J'', CHR ''o'', CHR ''s'', CHR 0xE9, CHR 0x22, CHR '']''] \<and>
   sanitize_scalar json_dumps (PFloat (3 / 2) ''1.5'') = PFloat (3 / 2) ''1.5''"
proof -
  let ?xs = "[PInt (-12), PFloat (3 / 2) ''1.5'', PDict [(''k'', PNone)], PBool True]"
  let ?s = "[CHR ''J'', CHR ''o'', CHR ''s'', CHR 0xE9]"
  let ?out = "''[-12,1.5,{'' @ [CHR 0x22] @ ''k'' @ [CHR 0x22] @ '':null},true]''"
  have v: "nested_attr = PList ?xs \<or> nested_attr = PDict []"
    by (simp add: nested_attr_def)
  have c: "\<forall>c \<in> set ?s. c \<noteq> CHR 0x22 \<and> c \<noteq> CHR 0x5C \<and> 32 \<le> code c"
    by (simp add: code_def)
  have t: "\<forall>s \<in> set (texts nested_attr). CHR '' '' \<notin> set s"
    by (simp add: nested_attr_texts)
  note ok = sanitize_scalar_by_type [where dumps = json_dumps and s = "?s" and r = "3 / 2"
      and t = "''1.5''" and v = nested_attr and xs = "?xs" and kvs = "[]" and dumped = "?out"
      and w = nested_attr and ys = "?xs" and kws = "[]" and float_of = float_of_1_5]
  note ko = sanitize_scalar_by_type [where dumps = "\<lambda>v. Inl TypeError" and v = nested_attr
      and xs = "?xs" and kvs = "[]" and e = TypeError]
  from ok v nested_attr_texts(1) have a: "sanitize_scalar json_dumps nested_attr = PStr ?out"
    by blast
  from ok v nested_attr_texts(3) obtain out where o: "sanitize_scalar json_dumps nested_attr = PStr out"
    and p: "parse_value float_of_1_5 (Suc (size nested_attr)) out = Some (nested_attr, [])"
    and n: "(\<forall>s \<in> set (texts nested_attr). CHR '' '' \<notin> set s) \<longrightarrow> (\<forall>c \<in> set out. visible c)"
    by blast
  from a o have out: "out = ?out"
    by simp
  from n t have l: "list_all visible ?out"
    unfolding out list_all_iff by blast
  from ko v have b: "sanitize_scalar (\<lambda>v. Inl TypeError) nested_attr = PStr (py_str nested_attr)"
    by blast
  from ok c have d: "sanitize_scalar json_dumps (PList [PStr ?s]) =
      PStr (''['' @ [CHR 0x22] @ ?s @ [CHR 0x22] @ '']'')"
    by blast
  from ok have f: "sanitize_scalar json_dumps (PFloat (3 / 2) ''1.5'') = PFloat (3 / 2) ''1.5''"
    by blast
  from a p [unfolded out] l b d f show ?thesis
    by (simp add: nested_attr_texts)
qed

section \<open>Normalisation\<close>

text \<open>
  Claim C3: after the normalisation at the end of \<^verbatim>\<open>build\<close>, every node has as canonical
  label the lexicographically least element of its observed-label set (the empty text
  when the set is empty) and as \<^verbatim>\<open>labels\<close> the sorted list of its distinct observed
  labels. The labels are texts, as the data model has them; this is so whenever every
  row is a text row. The nodes keep their order and their ids.
\<close>

theorem canonical_labels:
  "(text_labels (ingest_files init files) \<longrightarrow>
      (\<exists>ns. build files = Inr (ingest_files init files, ns) \<and>
            map fst ns = map fst (nodes (ingest_files init files)) \<and>
            (\<forall>qn \<in> set ns.
               norm_id (snd qn) = fst qn \<and>
               label (snd qn) =
                 PStr (if label_texts (ingest_files init files) (fst qn) = {} then ''''
                       else Min (label_texts (ingest_files init files) (fst qn))) \<and>
               norm_labels (snd qn) =
                 map PStr (sorted_list_of_set (label_texts (ingest_files init files) (fst qn)))))) \<and>
   ((\<forall>row \<in> set (concat (map file_rows files)). text_row row) \<longrightarrow>
      text_labels (ingest_files init files))"
proof (intro conjI impI)
  let ?b = "ingest_files init files"
  assume t: "text_labels ?b"
  have c: "label_texts ?b (fst (canonical_node qn)) = the_str ` set (labels (snd qn))"
    if "qn \<in> set (nodes ?b)" for qn
  proof -
    from that have "(fst qn, snd qn) \<in> set (nodes ?b)"
      by simp
    with ingest_files_nodes_distinct [of files] have "labels_of ?b (fst qn) = labels (snd qn)"
      by (rule labels_of_member)
    then show ?thesis
      by (simp add: canonical_node_def label_texts_def)
  qed
  have "\<forall>x \<in> set (map canonical_node (nodes ?b)).
          norm_id (snd x) = fst x \<and>
          label (snd x) = PStr (if label_texts ?b (fst x) = {} then ''''
                                else Min (label_texts ?b (fst x))) \<and>
          norm_labels (snd x) = map PStr (sorted_list_of_set (label_texts ?b (fst x)))"
  proof
    fix x
    assume "x \<in> set (map canonical_node (nodes ?b))"
    then obtain qn where qn: "qn \<in> set (nodes ?b)" and x: "x = canonical_node qn"
      by auto
    from c [OF qn] show "norm_id (snd x) = fst x \<and>
          label (snd x) = PStr (if label_texts ?b (fst x) = {} then ''''
                                else Min (label_texts ?b (fst x))) \<and>
          norm_labels (snd x) = map PStr (sorted_list_of_set (label_texts ?b (fst x)))"
      unfolding x by (simp add: canonical_node_def)
  qed
  moreover have "map fst (map canonical_node (nodes ?b)) = map fst (nodes ?b)"
    by (simp add: canonical_node_def comp_def)
  ultimately show "\<exists>ns. build files = Inr (?b, ns) \<and>
            map fst ns = map fst (nodes ?b) \<and>
            (\<forall>qn \<in> set ns.
               norm_id (snd qn) = fst qn \<and>
               label (snd qn) =
                 PStr (if label_texts ?b (fst qn) = {} then ''''
                       else Min (label_texts ?b (fst qn))) \<and>
               norm_labels (snd qn) =
                 map PStr (sorted_list_of_set (label_texts ?b (fst qn))))"
    using build_texts [OF t] by blast
next
  assume "\<forall>row \<in> set (concat (map file_rows files)). text_row row"
  then show "text_labels (ingest_files init files)"
    unfolding ingest_files_rows by (rule text_rows_text_labels)
qed

lemma label_files_eval:
  "text_labels (ingest_files init label_files)"
  "map fst (nodes (ingest_files init label_files)) = [''Q1'']"
  "label_texts (ingest_files init label_files) ''Q1'' = {''Beta'', ''Alpha'', ''alpha''}"
  "Min {''Beta'', ''Alpha'', ''alpha''} = ''Alpha''"
  "sorted_list_of_set {''Beta'', ''Alpha'', ''alpha''} = [''Alpha'', ''Beta'', ''alpha'']"
  by code_simp+

theorem canonical_labels_witness:
  "text_labels (ingest_files init label_files) \<and>
   (\<exists>n. build label_files = Inr (ingest_files init label_files, [(''Q1'', n)]) \<and>
        norm_id n = ''Q1'' \<and>
        label n = PStr ''Alpha'' \<and>
        norm_labels n = [PStr ''Alpha'', PStr ''Beta'', PStr ''alpha''])"
proof -
  let ?b = "ingest_files init label_files"
  from canonical_labels [of label_files] label_files_eval(1)
  obtain ns where b: "build label_files = Inr (?b, ns)"
    and k: "map fst ns = map fst (nodes ?b)"
    and a: "\<forall>qn \<in> set ns.
               norm_id (snd qn) = fst qn \<and>
               label (snd qn) =
                 PStr (if label_texts ?b (fst qn) = {} then ''''
                       else Min (label_texts ?b (fst qn))) \<and>
               norm_labels (snd qn) =
                 map PStr (sorted_list_of_set (label_texts ?b (fst qn)))"
    by blast
  from k obtain n where ns: "ns = [(''Q1'', n)]"
    by (auto simp: label_files_eval(2) map_eq_Cons_conv)
  from a have "norm_id n = ''Q1'' \<and> label n = PStr ''Alpha'' \<and>
        norm_labels n = [PStr ''Alpha'', PStr ''Beta'', PStr ''alpha'']"
    unfolding ns by (simp add: label_files_eval)
  with b ns label_files_eval(1) show ?thesis
    by blast
qed

section \<open>Order of the input\<close>





end
